theory Spec2Isabelle
  imports Complex_Main
begin

section \<open>The streaming ONNX denoiser of AudioRestorationVST\<close>

text \<open>
  A shallow embedding of \<^verbatim>\<open>Source/DSP/OnnxDenoiser.{h,cpp}\<close> (the build with
  \<^verbatim>\<open>ENABLE_ONNX_RUNTIME\<close>). Conventions:
  \<^item> a C++ \<^verbatim>\<open>float\<close> or \<^verbatim>\<open>double\<close> is a \<^typ>\<open>real\<close>: rounding is not modelled;
  \<^item> a C++ \<^verbatim>\<open>int\<close> is an \<^typ>\<open>int\<close>; the ring buffer keeps every index between
    \<open>0\<close> and twice its capacity, far from the 32-bit range for the capacity the
    denoiser uses (\<open>480 * 32\<close>);
  \<^item> an array behind a pointer is a list; a read or write outside it is undefined
    behaviour in C++ and the value \<open>None\<close> here, and so is a loop that does not return;
  \<^item> what lives outside the repository (the JUCE interpolator, the ONNX runtime, the
    file system, the build flags) is a parameter: the records \<open>Interp\<close> and \<open>Env\<close>.
\<close>

type_synonym sample = real

subsection \<open>Raw memory helpers\<close>

text \<open>\<^verbatim>\<open>std::memcpy (dst + doff, src + soff, sizeof (float) * n)\<close>; a negative \<open>n\<close> would
  be cast to a huge \<^verbatim>\<open>size_t\<close>.\<close>

definition memcpy :: "sample list \<Rightarrow> int \<Rightarrow> sample list \<Rightarrow> int \<Rightarrow> int \<Rightarrow> sample list option" where
  "memcpy dst doff src soff n =
     (if 0 \<le> doff \<and> 0 \<le> soff \<and> 0 \<le> n
         \<and> doff + n \<le> int (length dst) \<and> soff + n \<le> int (length src)
      then Some (take (nat doff) dst @ take (nat n) (drop (nat soff) src) @ drop (nat (doff + n)) dst)
      else None)"

text \<open>\<^verbatim>\<open>std::fill (dst + from, dst + to, 0.0f)\<close>.\<close>

definition fill_zero :: "sample list \<Rightarrow> int \<Rightarrow> int \<Rightarrow> sample list option" where
  "fill_zero dst from to =
     (if 0 \<le> from \<and> from \<le> to \<and> to \<le> int (length dst)
      then Some (take (nat from) dst @ replicate (nat (to - from)) 0 @ drop (nat to) dst)
      else None)"

text \<open>The C++ remainder \<^verbatim>\<open>a % b\<close>: truncated, undefined for \<open>b = 0\<close>.\<close>

definition cpp_rem :: "int \<Rightarrow> int \<Rightarrow> int option" where
  "cpp_rem a b = (if b = 0 then None else Some (sgn a * (\<bar>a\<bar> mod \<bar>b\<bar>)))"

text \<open>\<^verbatim>\<open>std::vector<float>::resize (n)\<close>: keeps a prefix, value-initialises what is new.\<close>

definition vec_resize :: "sample list \<Rightarrow> nat \<Rightarrow> sample list" where
  "vec_resize v n = take n v @ replicate (n - length v) 0"

subsection \<open>\<^verbatim>\<open>OnnxDenoiser::RingBuffer\<close>\<close>

record RingBuffer =
  buffer :: "sample list"
  capacity :: int
  readIndex :: int
  writeIndex :: int
  availableSamples :: int

text \<open>The default member initialisers of the struct.\<close>

definition RingBuffer_init :: RingBuffer where
  "RingBuffer_init =
     \<lparr>buffer = [], capacity = 0, readIndex = 0, writeIndex = 0, availableSamples = 0\<rparr>"

definition available :: "RingBuffer \<Rightarrow> int" where
  "available rb = availableSamples rb"

definition resize :: "RingBuffer \<Rightarrow> int \<Rightarrow> RingBuffer" where
  "resize rb newCapacity =
     (let cap = max newCapacity 1
      in rb\<lparr>capacity := cap, buffer := replicate (nat cap) 0,
            readIndex := 0, writeIndex := 0, availableSamples := 0\<rparr>)"

definition clear :: "RingBuffer \<Rightarrow> RingBuffer" where
  "clear rb =
     rb\<lparr>readIndex := 0, writeIndex := 0, availableSamples := 0,
        buffer := replicate (length (buffer rb)) 0\<rparr>"

text \<open>The \<^verbatim>\<open>while (remaining > 0)\<close> loop of \<^verbatim>\<open>push\<close>.\<close>

partial_function (option) push_loop ::
  "RingBuffer \<Rightarrow> sample list \<Rightarrow> int \<Rightarrow> int \<Rightarrow> RingBuffer option" where
  "push_loop rb data count remaining =
     (if remaining > 0 then
        (let space = capacity rb - writeIndex rb;
             toCopy = min space remaining
         in case memcpy (buffer rb) (writeIndex rb) data (count - remaining) toCopy of
              None \<Rightarrow> None
            | Some b \<Rightarrow>
               (case cpp_rem (writeIndex rb + toCopy) (capacity rb) of
                  None \<Rightarrow> None
                | Some w \<Rightarrow>
                    push_loop (rb\<lparr>buffer := b, writeIndex := w\<rparr>) data count (remaining - toCopy)))
      else Some rb)"

declare push_loop.simps [code]

definition push :: "RingBuffer \<Rightarrow> sample list \<Rightarrow> int \<Rightarrow> RingBuffer option" where
  "push rb data count0 =
     (if count0 \<le> 0 then Some rb
      else
        let count = (if count0 > capacity rb then capacity rb else count0)
        in case push_loop rb data count count of
             None \<Rightarrow> None
           | Some rb1 \<Rightarrow>
               let rb2 = rb1\<lparr>availableSamples := min (capacity rb1) (availableSamples rb1 + count)\<rparr>
               in Some (if availableSamples rb2 = capacity rb2
                        then rb2\<lparr>readIndex := writeIndex rb2\<rparr> else rb2))"

text \<open>The \<^verbatim>\<open>while (remaining > 0)\<close> loop of \<^verbatim>\<open>pop\<close>; \<open>dest\<close> is the destination array.\<close>

partial_function (option) pop_loop ::
  "RingBuffer \<Rightarrow> sample list \<Rightarrow> int \<Rightarrow> int \<Rightarrow> (RingBuffer \<times> sample list) option" where
  "pop_loop rb dest toRead remaining =
     (if remaining > 0 then
        (let space = capacity rb - readIndex rb;
             toCopy = min space remaining
         in case memcpy dest (toRead - remaining) (buffer rb) (readIndex rb) toCopy of
              None \<Rightarrow> None
            | Some d \<Rightarrow>
               (case cpp_rem (readIndex rb + toCopy) (capacity rb) of
                  None \<Rightarrow> None
                | Some r \<Rightarrow> pop_loop (rb\<lparr>readIndex := r\<rparr>) d toRead (remaining - toCopy)))
      else Some (rb, dest))"

declare pop_loop.simps [code]

text \<open>\<^verbatim>\<open>pop\<close> returns the buffer, the destination array and the number of samples read.\<close>

definition pop ::
  "RingBuffer \<Rightarrow> sample list \<Rightarrow> int \<Rightarrow> bool \<Rightarrow> (RingBuffer \<times> sample list \<times> int) option" where
  "pop rb dest count fillWithZeros =
     (if count \<le> 0 then Some (rb, dest, 0)
      else
        let toRead = min count (availableSamples rb)
        in case pop_loop rb dest toRead toRead of
             None \<Rightarrow> None
           | Some (rb1, d) \<Rightarrow>
               let rb2 = rb1\<lparr>availableSamples := availableSamples rb1 - toRead\<rparr>
               in if fillWithZeros \<and> toRead < count
                  then (case fill_zero d toRead count of
                          None \<Rightarrow> None
                        | Some d' \<Rightarrow> Some (rb2, d', toRead))
                  else Some (rb2, d, toRead))"

text \<open>A sequence of operations on one ring buffer, each with its arguments.\<close>

datatype rb_op =
    Resize int
  | Clear
  | Push "sample list" int
  | Pop "sample list" int bool

fun run_op :: "RingBuffer \<Rightarrow> rb_op \<Rightarrow> RingBuffer option" where
  "run_op rb (Resize n) = Some (resize rb n)"
| "run_op rb Clear = Some (clear rb)"
| "run_op rb (Push data count) = push rb data count"
| "run_op rb (Pop dest count fillWithZeros) = map_option fst (pop rb dest count fillWithZeros)"

fun run_ops :: "RingBuffer \<Rightarrow> rb_op list \<Rightarrow> RingBuffer option" where
  "run_ops rb [] = Some rb"
| "run_ops rb (x # xs) = (case run_op rb x of None \<Rightarrow> None | Some rb' \<Rightarrow> run_ops rb' xs)"

text \<open>The arguments of an operation are valid when the array behind each pointer has
  at least \<open>count\<close> elements.\<close>

fun op_ok :: "rb_op \<Rightarrow> bool" where
  "op_ok (Resize n) = True"
| "op_ok Clear = True"
| "op_ok (Push data count) = (count \<le> int (length data))"
| "op_ok (Pop dest count fillWithZeros) = (count \<le> int (length dest))"

text \<open>The samples a ring buffer holds, oldest first.\<close>

definition contents :: "RingBuffer \<Rightarrow> sample list" where
  "contents rb =
     map (\<lambda>i. buffer rb ! nat ((readIndex rb + int i) mod capacity rb))
         [0 ..< nat (availableSamples rb)]"

text \<open>The representation invariant: what \<^verbatim>\<open>resize\<close> establishes and every operation keeps.\<close>

definition rb_inv :: "RingBuffer \<Rightarrow> bool" where
  "rb_inv rb \<longleftrightarrow>
     1 \<le> capacity rb \<and> length (buffer rb) = nat (capacity rb)
     \<and> 0 \<le> readIndex rb \<and> readIndex rb < capacity rb
     \<and> 0 \<le> availableSamples rb \<and> availableSamples rb \<le> capacity rb
     \<and> writeIndex rb = (readIndex rb + availableSamples rb) mod capacity rb"


text \<open>A ring buffer is in a valid state when it is as constructed or satisfies the
  representation invariant.\<close>

definition rb_state_ok :: "RingBuffer \<Rightarrow> bool" where
  "rb_state_ok rb \<longleftrightarrow> rb = RingBuffer_init \<or> rb_inv rb"

text \<open>Auxiliary list functions for stating what the circular store holds: the last \<open>n\<close>
  elements of a list, a circular write of \<open>xs\<close> at position \<open>w\<close>, and a circular read
  of \<open>n\<close> elements from position \<open>r\<close>.\<close>

definition lastn :: "nat \<Rightarrow> 'a list \<Rightarrow> 'a list" where
  "lastn n xs = drop (length xs - n) xs"

definition ring_put :: "sample list \<Rightarrow> int \<Rightarrow> sample list \<Rightarrow> sample list" where
  "ring_put b w xs =
     map (\<lambda>j. let k = (int j - w) mod int (length b)
               in if k < int (length xs) then xs ! nat k else b ! j)
         [0 ..< length b]"

definition ring_get :: "sample list \<Rightarrow> int \<Rightarrow> nat \<Rightarrow> sample list" where
  "ring_get b r n = map (\<lambda>i. b ! nat ((r + int i) mod int (length b))) [0 ..< n]"

subsection \<open>Backend identifiers and their names\<close>

datatype Provider = autoSelect | cpu | dml | qnn | cuda | rocm | coreml

definition providerToString :: "Provider \<Rightarrow> string" where
  "providerToString provider =
     (case provider of
        autoSelect \<Rightarrow> ''Auto''
      | cpu \<Rightarrow> ''CPU''
      | dml \<Rightarrow> ''DML''
      | qnn \<Rightarrow> ''QNN''
      | cuda \<Rightarrow> ''CUDA''
      | rocm \<Rightarrow> ''ROCM''
      | coreml \<Rightarrow> ''CoreML'')"

text \<open>The two methods of \<^verbatim>\<open>juce::String\<close> that \<^verbatim>\<open>providerFromString\<close> calls, on ASCII
  text: \<^verbatim>\<open>trim\<close> removes the whitespace at both ends, \<^verbatim>\<open>toLowerCase\<close> maps
  \<^verbatim>\<open>A\<close>..\<^verbatim>\<open>Z\<close> to \<^verbatim>\<open>a\<close>..\<^verbatim>\<open>z\<close>.\<close>

definition isWhitespace :: "char \<Rightarrow> bool" where
  "isWhitespace ch \<longleftrightarrow> (of_char ch :: nat) = 32 \<or> (9 \<le> (of_char ch :: nat) \<and> (of_char ch :: nat) \<le> 13)"

definition trim :: "string \<Rightarrow> string" where
  "trim s = rev (dropWhile isWhitespace (rev (dropWhile isWhitespace s)))"

definition toLowerChar :: "char \<Rightarrow> char" where
  "toLowerChar ch =
     (if 65 \<le> (of_char ch :: nat) \<and> (of_char ch :: nat) \<le> 90
      then char_of ((of_char ch :: nat) + 32) else ch)"

definition toLowerCase :: "string \<Rightarrow> string" where
  "toLowerCase s = map toLowerChar s"

definition providerFromString :: "string \<Rightarrow> Provider" where
  "providerFromString name =
     (let normalized = toLowerCase (trim name)
      in if normalized = ''cpu'' then cpu
         else if normalized = ''dml'' \<or> normalized = ''directml'' then dml
         else if normalized = ''qnn'' \<or> normalized = ''npu'' then qnn
         else if normalized = ''cuda'' then cuda
         else if normalized = ''rocm'' then rocm
         else if normalized = ''coreml'' then coreml
         else autoSelect)"

subsection \<open>The world outside the repository\<close>

text \<open>The JUCE \<^verbatim>\<open>LagrangeInterpolator\<close>: \<^verbatim>\<open>reset\<close>, and \<^verbatim>\<open>process (ratio, in, out, numOut)\<close>,
  which returns its new state, the samples it writes to \<^verbatim>\<open>out\<close> and its return value.\<close>

record 'r Interp =
  interp_init :: 'r
  interp_reset :: "'r \<Rightarrow> 'r"
  interp_process :: "'r \<Rightarrow> real \<Rightarrow> sample list \<Rightarrow> int \<Rightarrow> 'r \<times> sample list \<times> int"

text \<open>What \<^verbatim>\<open>session->Run\<close> does with one frame: it throws, or returns a vector of
  output tensors, each a list of floats.\<close>

datatype run_outcome = Throws | Outputs "sample list list"

text \<open>A loaded \<^verbatim>\<open>Ort::Session\<close>: its behaviour on an input shape and a frame.\<close>

type_synonym Session = "int list \<Rightarrow> sample list \<Rightarrow> run_outcome"

text \<open>The file system, the environment variables, the build flags and the ONNX runtime.
  \<open>searchDirs\<close> is the list of directories that \<^verbatim>\<open>getModelCandidates\<close> collects (the
  variable \<^verbatim>\<open>VRS_MODEL_DIR\<close>, the directory of the executable, that of the application).
  \<open>createSession file provider\<close> is the rest of the \<^verbatim>\<open>try\<close> block of
  \<^verbatim>\<open>tryCreateSessionForProvider\<close> once the provider is appended: the session and the
  input shape of the model, or \<open>None\<close> when anything throws.\<close>

record Env =
  existsAsFile :: "string \<Rightarrow> bool"
  getChildFile :: "string \<Rightarrow> string \<Rightarrow> string"
  searchDirs :: "string list"
  useDml :: bool
  useCuda :: bool
  useRocm :: bool
  useCoreml :: bool
  envDmlDeviceId :: "int option"
  envQnnBackendPath :: string
  appendDmlProvider :: "int \<Rightarrow> bool"
  ortAppendQnn :: "string \<Rightarrow> bool"
  createSession :: "string \<Rightarrow> Provider \<Rightarrow> (Session \<times> int list) option"

subsection \<open>\<^verbatim>\<open>OnnxDenoiser\<close>: state\<close>

record 'r ChannelState =
  resamplerIn :: 'r
  resamplerOut :: 'r
  inputFifo :: RingBuffer
  outputFifo :: RingBuffer
  tempIn :: "sample list"
  tempOut :: "sample list"
  frameIn :: "sample list"
  frameOut :: "sample list"

record 'r OnnxDenoiser =
  hostSampleRate :: real
  numChannels :: int
  maxBlock :: int
  enabled :: bool
  resampleInRatio :: real
  resampleOutRatio :: real
  modelPath :: string
  preferredProvider :: Provider
  activeProvider :: Provider
  allowFallback :: bool
  dmlDeviceId :: int
  qnnBackendPath :: string
  channels :: "'r ChannelState list"
  session :: "Session option"
  modelInputShape :: "int list"

definition modelSampleRate :: real where
  "modelSampleRate = 48000"

definition modelFrameSize :: int where
  "modelFrameSize = 480"

definition ChannelState_init :: "'r Interp \<Rightarrow> 'r ChannelState" where
  "ChannelState_init ip =
     \<lparr>resamplerIn = interp_init ip, resamplerOut = interp_init ip,
      inputFifo = RingBuffer_init, outputFifo = RingBuffer_init,
      tempIn = [], tempOut = [], frameIn = [], frameOut = []\<rparr>"

text \<open>The state after the constructor; \<^verbatim>\<open>juce::File()\<close> is the empty path.\<close>

definition OnnxDenoiser_init :: "'r OnnxDenoiser" where
  "OnnxDenoiser_init =
     \<lparr>hostSampleRate = 44100, numChannels = 2, maxBlock = 0, enabled = False,
      resampleInRatio = 1, resampleOutRatio = 1, modelPath = [],
      preferredProvider = autoSelect, activeProvider = cpu, allowFallback = True,
      dmlDeviceId = 0, qnnBackendPath = [], channels = [], session = None,
      modelInputShape = []\<rparr>"

declare OnnxDenoiser_init_def [code_unfold]

definition setEnabled :: "'r OnnxDenoiser \<Rightarrow> bool \<Rightarrow> 'r OnnxDenoiser" where
  "setEnabled den shouldEnable = den\<lparr>enabled := shouldEnable\<rparr>"

definition isEnabled :: "'r OnnxDenoiser \<Rightarrow> bool" where
  "isEnabled den = enabled den"

definition isReady :: "'r OnnxDenoiser \<Rightarrow> bool" where
  "isReady den \<longleftrightarrow> session den \<noteq> None"

definition setModelPath :: "'r OnnxDenoiser \<Rightarrow> string \<Rightarrow> 'r OnnxDenoiser" where
  "setModelPath den file = den\<lparr>modelPath := file, session := None\<rparr>"

definition clearModelPath :: "'r OnnxDenoiser \<Rightarrow> 'r OnnxDenoiser" where
  "clearModelPath den = den\<lparr>modelPath := [], session := None\<rparr>"

definition setPreferredProvider :: "'r OnnxDenoiser \<Rightarrow> Provider \<Rightarrow> 'r OnnxDenoiser" where
  "setPreferredProvider den provider = den\<lparr>preferredProvider := provider, session := None\<rparr>"

definition setAllowFallback :: "'r OnnxDenoiser \<Rightarrow> bool \<Rightarrow> 'r OnnxDenoiser" where
  "setAllowFallback den shouldAllow = den\<lparr>allowFallback := shouldAllow\<rparr>"

definition setDmlDeviceId :: "'r OnnxDenoiser \<Rightarrow> int \<Rightarrow> 'r OnnxDenoiser" where
  "setDmlDeviceId den deviceId = den\<lparr>dmlDeviceId := deviceId\<rparr>"

definition setQnnBackendPath :: "'r OnnxDenoiser \<Rightarrow> string \<Rightarrow> 'r OnnxDenoiser" where
  "setQnnBackendPath den path = den\<lparr>qnnBackendPath := path\<rparr>"

subsection \<open>Backend order and model loading\<close>

text \<open>The lambda \<^verbatim>\<open>appendUnique\<close> of \<^verbatim>\<open>getProviderFallbackOrder\<close>.\<close>

definition appendUnique :: "Provider list \<Rightarrow> Provider \<Rightarrow> Provider list" where
  "appendUnique order provider = (if provider \<in> set order then order else order @ [provider])"

definition getProviderFallbackOrder :: "'r OnnxDenoiser \<Rightarrow> Provider list" where
  "getProviderFallbackOrder den =
     (if \<not> allowFallback den \<and> preferredProvider den \<noteq> autoSelect
      then [preferredProvider den]
      else if preferredProvider den = autoSelect
      then [qnn, dml, cuda, rocm, coreml, cpu]
      else
        let order = appendUnique [] (preferredProvider den)
        in if allowFallback den
           then foldl appendUnique order [qnn, dml, cuda, rocm, coreml, cpu]
           else order)"

definition isProviderUsable :: "Env \<Rightarrow> Provider \<Rightarrow> bool" where
  "isProviderUsable env provider =
     (if provider = cpu then True
      else if provider = dml then useDml env
      else if provider = qnn then True
      else if provider = cuda then useCuda env
      else if provider = rocm then useRocm env
      else if provider = coreml then useCoreml env
      else False)"

text \<open>\<^verbatim>\<open>juce::StringArray::addIfNotAlreadyThere\<close>.\<close>

definition addIfNotAlreadyThere :: "string list \<Rightarrow> string \<Rightarrow> string list" where
  "addIfNotAlreadyThere xs x = (if x \<in> set xs then xs else xs @ [x])"

text \<open>The lambda \<^verbatim>\<open>addByProvider\<close> of \<^verbatim>\<open>getModelCandidates\<close>.\<close>

definition addByProvider :: "string list \<Rightarrow> Provider \<Rightarrow> string list" where
  "addByProvider filenamePriority provider =
     (case provider of
        dml \<Rightarrow> addIfNotAlreadyThere filenamePriority ''rnnoise_48k_olive_dml.onnx''
      | qnn \<Rightarrow> addIfNotAlreadyThere filenamePriority ''rnnoise_48k_olive_qnn.onnx''
      | cuda \<Rightarrow> addIfNotAlreadyThere filenamePriority ''rnnoise_48k_olive_cuda.onnx''
      | rocm \<Rightarrow> addIfNotAlreadyThere filenamePriority ''rnnoise_48k_olive_rocm.onnx''
      | coreml \<Rightarrow> addIfNotAlreadyThere filenamePriority ''rnnoise_48k_olive_coreml.onnx''
      | cpu \<Rightarrow> filenamePriority
      | autoSelect \<Rightarrow> filenamePriority)"

text \<open>\<^verbatim>\<open>getModelCandidates\<close>; the directories it searches come from the environment.\<close>

definition getModelCandidates :: "Env \<Rightarrow> 'r OnnxDenoiser \<Rightarrow> string list" where
  "getModelCandidates env den =
     (let fp0 = (if preferredProvider den = autoSelect
                 then foldl addByProvider [] [qnn, dml, cuda, rocm, coreml]
                 else addByProvider [] (preferredProvider den));
          fp1 = addIfNotAlreadyThere fp0 ''rnnoise_48k_olive_cpu.onnx'';
          filenamePriority = addIfNotAlreadyThere fp1 ''rnnoise_48k.onnx''
      in concat (map (\<lambda>dir. map (getChildFile env (getChildFile env dir ''models''))
                                 filenamePriority)
                     (searchDirs env)))"

text \<open>The static function \<^verbatim>\<open>appendQnnProvider\<close>.\<close>

definition appendQnnProvider :: "Env \<Rightarrow> string \<Rightarrow> bool" where
  "appendQnnProvider env backendPath =
     (if backendPath = [] then False
      else if \<not> existsAsFile env backendPath then False
      else ortAppendQnn env backendPath)"

text \<open>The flag \<^verbatim>\<open>providerReady\<close> of \<^verbatim>\<open>tryCreateSessionForProvider\<close>.\<close>

definition providerReady :: "Env \<Rightarrow> 'r OnnxDenoiser \<Rightarrow> Provider \<Rightarrow> bool" where
  "providerReady env den provider =
     (if provider = dml then
        (if useDml env then
           appendDmlProvider env
             (if dmlDeviceId den < 0
              then (case envDmlDeviceId env of Some d \<Rightarrow> d | None \<Rightarrow> 0)
              else dmlDeviceId den)
         else False)
      else if provider = qnn then
        appendQnnProvider env
          (if qnnBackendPath den = [] then envQnnBackendPath env else qnnBackendPath den)
      else if provider = cuda then useCuda env
      else if provider = rocm then useRocm env
      else if provider = coreml then useCoreml env
      else True)"

definition tryCreateSessionForProvider ::
  "Env \<Rightarrow> 'r OnnxDenoiser \<Rightarrow> string \<Rightarrow> Provider \<Rightarrow> bool \<times> 'r OnnxDenoiser" where
  "tryCreateSessionForProvider env den file provider =
     (if \<not> existsAsFile env file then (False, den)
      else
        let den1 = den\<lparr>session := None\<rparr>
        in if \<not> providerReady env den1 provider then (False, den1)
           else (case createSession env file provider of
                   None \<Rightarrow> (False, den1)
                 | Some (s, shape) \<Rightarrow>
                     (True, den1\<lparr>session := Some s, modelInputShape := shape,
                                 activeProvider := provider\<rparr>)))"

text \<open>The inner loop \<^verbatim>\<open>for (const auto provider : providers)\<close>.\<close>

fun try_providers ::
  "Env \<Rightarrow> 'r OnnxDenoiser \<Rightarrow> string \<Rightarrow> Provider list \<Rightarrow> bool \<times> 'r OnnxDenoiser" where
  "try_providers env den file [] = (False, den)"
| "try_providers env den file (provider # rest) =
     (if \<not> isProviderUsable env provider then try_providers env den file rest
      else case tryCreateSessionForProvider env den file provider of
             (True, den') \<Rightarrow> (True, den')
           | (False, den') \<Rightarrow> try_providers env den' file rest)"

text \<open>The loop \<^verbatim>\<open>for (const auto& candidate : candidates)\<close>.\<close>

fun try_candidates ::
  "Env \<Rightarrow> 'r OnnxDenoiser \<Rightarrow> Provider list \<Rightarrow> string list \<Rightarrow> bool \<times> 'r OnnxDenoiser" where
  "try_candidates env den providers [] = (False, den)"
| "try_candidates env den providers (candidate # rest) =
     (if \<not> existsAsFile env candidate then try_candidates env den providers rest
      else case try_providers env den candidate providers of
             (True, den') \<Rightarrow> (True, den'\<lparr>modelPath := candidate\<rparr>)
           | (False, den') \<Rightarrow> try_candidates env den' providers rest)"

definition loadDefaultModelIfNeeded :: "Env \<Rightarrow> 'r OnnxDenoiser \<Rightarrow> bool \<times> 'r OnnxDenoiser" where
  "loadDefaultModelIfNeeded env den =
     (if session den \<noteq> None then (True, den)
      else
        let providers = getProviderFallbackOrder den
        in case (if existsAsFile env (modelPath den)
                 then try_providers env den (modelPath den) providers
                 else (False, den)) of
             (True, den') \<Rightarrow> (True, den')
           | (False, den') \<Rightarrow>
               try_candidates env den' providers (getModelCandidates env den'))"


subsection \<open>\<^verbatim>\<open>prepare\<close> and \<^verbatim>\<open>reset\<close>\<close>

text \<open>The body of the loop over the channels in \<^verbatim>\<open>prepare\<close>.\<close>

definition prepareChannel :: "'r Interp \<Rightarrow> 'r ChannelState \<Rightarrow> 'r ChannelState" where
  "prepareChannel ip channel =
     (let fifoCapacity = modelFrameSize * 32
      in channel\<lparr>resamplerIn := interp_reset ip (resamplerIn channel),
                 resamplerOut := interp_reset ip (resamplerOut channel),
                 inputFifo := resize (inputFifo channel) fifoCapacity,
                 outputFifo := resize (outputFifo channel) fifoCapacity,
                 tempIn := [], tempOut := [],
                 frameIn := vec_resize (frameIn channel) (nat modelFrameSize),
                 frameOut := vec_resize (frameOut channel) (nat modelFrameSize)\<rparr>)"

text \<open>\<^verbatim>\<open>prepare\<close>; a negative channel count, cast to \<^verbatim>\<open>size_t\<close>, makes
  \<^verbatim>\<open>channels.resize\<close> throw.\<close>

definition prepare ::
  "'r Interp \<Rightarrow> Env \<Rightarrow> 'r OnnxDenoiser \<Rightarrow> real \<Rightarrow> int \<Rightarrow> int \<Rightarrow> 'r OnnxDenoiser option" where
  "prepare ip env den newSampleRate newNumChannels maxBlockSize =
     (if newNumChannels < 0 then None
      else
        let n = nat newNumChannels;
            resized = take n (channels den) @ replicate (n - length (channels den)) (ChannelState_init ip);
            den1 = den\<lparr>hostSampleRate := newSampleRate,
                       numChannels := newNumChannels,
                       maxBlock := maxBlockSize,
                       resampleInRatio := newSampleRate / modelSampleRate,
                       resampleOutRatio := modelSampleRate / newSampleRate,
                       channels := map (prepareChannel ip) resized\<rparr>
        in Some (snd (loadDefaultModelIfNeeded env den1)))"

definition resetChannel :: "'r Interp \<Rightarrow> 'r ChannelState \<Rightarrow> 'r ChannelState" where
  "resetChannel ip channel =
     channel\<lparr>resamplerIn := interp_reset ip (resamplerIn channel),
             resamplerOut := interp_reset ip (resamplerOut channel),
             inputFifo := clear (inputFifo channel),
             outputFifo := clear (outputFifo channel)\<rparr>"

definition reset :: "'r Interp \<Rightarrow> 'r OnnxDenoiser \<Rightarrow> 'r OnnxDenoiser" where
  "reset ip den = den\<lparr>channels := map (resetChannel ip) (channels den)\<rparr>"

subsection \<open>Inference on one frame\<close>

definition resolveInputShape :: "int list \<Rightarrow> int \<Rightarrow> int list" where
  "resolveInputShape shape0 frameSize =
     (if shape0 = [] then [1, frameSize]
      else
        let shape = map (\<lambda>dim. if dim < 0 then frameSize else dim) shape0
        in if length shape = 1 then shape[0 := frameSize]
           else if length shape = 2 then shape[0 := 1, 1 := frameSize]
           else if length shape = 3 then shape[0 := 1, 1 := 1, 2 := frameSize]
           else shape)"

text \<open>\<^verbatim>\<open>runModel\<close> returns its result and the array behind \<^verbatim>\<open>output\<close>. The input tensor
  is a view of \<open>frameSize\<close> floats behind \<^verbatim>\<open>input\<close>, which must hold that many. Whatever
  throws inside the \<^verbatim>\<open>try\<close> block is the outcome \<open>Throws\<close> of the session.\<close>

definition runModel ::
  "Session option \<Rightarrow> int list \<Rightarrow> sample list \<Rightarrow> sample list \<Rightarrow> int
     \<Rightarrow> (bool \<times> sample list) option" where
  "runModel sess shape0 input output frameSize =
     (case sess of
        None \<Rightarrow> Some (False, output)
      | Some run \<Rightarrow>
          if frameSize < 0 \<or> int (length input) < frameSize then None
          else
            (case run (resolveInputShape shape0 frameSize) (take (nat frameSize) input) of
               Throws \<Rightarrow> Some (False, output)
             | Outputs outputTensor \<Rightarrow>
                 if length outputTensor = 0 then Some (False, output)
                 else
                   let outputData = outputTensor ! 0;
                       outputCount = int (length outputData);
                       samplesToCopy = min frameSize outputCount
                   in case memcpy output 0 outputData 0 samplesToCopy of
                        None \<Rightarrow> None
                      | Some out1 \<Rightarrow>
                          if samplesToCopy < frameSize
                          then (case fill_zero out1 samplesToCopy frameSize of
                                  None \<Rightarrow> None
                                | Some out2 \<Rightarrow> Some (True, out2))
                          else Some (True, out1)))"

text \<open>One iteration of the loop \<^verbatim>\<open>while (state.inputFifo.available() >= modelFrameSize)\<close>.\<close>

definition frame_step ::
  "Session option \<Rightarrow> int list \<Rightarrow> 'r ChannelState \<Rightarrow> 'r ChannelState option" where
  "frame_step sess shape0 state =
     (case pop (inputFifo state) (frameIn state) modelFrameSize False of
        None \<Rightarrow> None
      | Some (fifoIn, fin, n) \<Rightarrow>
          (case runModel sess shape0 fin (frameOut state) modelFrameSize of
             None \<Rightarrow> None
           | Some (ok, fout) \<Rightarrow>
               (case push (outputFifo state) (if ok then fout else fin) modelFrameSize of
                  None \<Rightarrow> None
                | Some fifoOut \<Rightarrow>
                    Some (state\<lparr>inputFifo := fifoIn, frameIn := fin,
                                frameOut := fout, outputFifo := fifoOut\<rparr>))))"

partial_function (option) frame_loop ::
  "Session option \<Rightarrow> int list \<Rightarrow> 'r ChannelState \<Rightarrow> 'r ChannelState option" where
  "frame_loop sess shape0 state =
     (if available (inputFifo state) \<ge> modelFrameSize
      then (case frame_step sess shape0 state of
              None \<Rightarrow> None
            | Some state' \<Rightarrow> frame_loop sess shape0 state')
      else Some state)"

declare frame_loop.simps [code]

subsection \<open>\<^verbatim>\<open>processChannel\<close> and \<^verbatim>\<open>processBlock\<close>\<close>

text \<open>The interpolator writes the samples it produces at the start of the array behind
  its output pointer.\<close>

definition interp_write :: "sample list \<Rightarrow> sample list \<Rightarrow> sample list option" where
  "interp_write dst outs =
     (if length outs \<le> length dst then Some (outs @ drop (length outs) dst) else None)"

text \<open>The dry/wet loop \<^verbatim>\<open>for (int i = 0; i < numSamples; ++i)\<close>. The memory is the list
  of the host's channel arrays; \<^verbatim>\<open>input\<close> and \<^verbatim>\<open>output\<close> are indices into it, so that
  two pointers to the same array are the same index.\<close>

function mix_loop ::
  "sample list list \<Rightarrow> nat \<Rightarrow> nat \<Rightarrow> sample \<Rightarrow> sample \<Rightarrow> int \<Rightarrow> int \<Rightarrow> sample list list option" where
  "mix_loop mem inP outP dryMix mix i numSamples =
     (if i < numSamples then
        (if inP < length mem \<and> outP < length mem \<and> 0 \<le> i
            \<and> nat i < length (mem ! inP) \<and> nat i < length (mem ! outP)
         then mix_loop
                (mem[outP := (mem ! outP)[nat i := (mem ! inP) ! nat i * dryMix
                                                    + (mem ! outP) ! nat i * mix]])
                inP outP dryMix mix (i + 1) numSamples
         else None)
      else Some mem)"
  by pat_completeness auto
termination
  by (relation "measure (\<lambda>(mem, inP, outP, dryMix, mix, i, numSamples). nat (numSamples - i))") auto

declare mix_loop.simps [simp del]

text \<open>\<^verbatim>\<open>processChannel\<close>. The two sample counts are \<^verbatim>\<open>(int) std::ceil (...)\<close> of a double,
  here the ceiling of the real number. A zero \<^verbatim>\<open>resampleInRatio\<close> (the quotient is then
  infinite or not a number, and its conversion to \<^verbatim>\<open>int\<close> undefined) and a channel pointer
  outside the memory are undefined behaviour.\<close>

definition processChannel ::
  "'r Interp \<Rightarrow> 'r OnnxDenoiser \<Rightarrow> 'r ChannelState \<Rightarrow> sample list list \<Rightarrow> nat \<Rightarrow> nat \<Rightarrow> int \<Rightarrow> real
     \<Rightarrow> ('r ChannelState \<times> sample list list) option" where
  "processChannel ip den state mem inP outP numSamples mix =
     (if resampleInRatio den = 0 \<or> \<not> inP < length mem \<or> \<not> outP < length mem then None
      else
        let targetSamples = \<lceil>real_of_int numSamples / resampleInRatio den\<rceil>;
            tempIn1 = (if int (length (tempIn state)) < targetSamples
                       then vec_resize (tempIn state) (nat targetSamples) else tempIn state);
            (rsIn, outs, producedSamples) =
               interp_process ip (resamplerIn state) (resampleInRatio den) (mem ! inP) targetSamples
        in case interp_write tempIn1 outs of
             None \<Rightarrow> None
           | Some tempIn2 \<Rightarrow>
        (case push (inputFifo state) tempIn2 producedSamples of
             None \<Rightarrow> None
           | Some fifoIn \<Rightarrow>
        (case frame_loop (session den) (modelInputShape den)
                (state\<lparr>resamplerIn := rsIn, tempIn := tempIn2, inputFifo := fifoIn\<rparr>) of
             None \<Rightarrow> None
           | Some state2 \<Rightarrow>
        let requiredModelSamples = \<lceil>resampleOutRatio den * real_of_int numSamples\<rceil>;
            tempOut1 = (if int (length (tempOut state2)) < requiredModelSamples
                        then vec_resize (tempOut state2) (nat requiredModelSamples)
                        else tempOut state2)
        in case pop (outputFifo state2) tempOut1 requiredModelSamples True of
             None \<Rightarrow> None
           | Some (fifoOut, tempOut2, popped) \<Rightarrow>
        let (rsOut, outs2, used) =
               interp_process ip (resamplerOut state2) (resampleOutRatio den) tempOut2 numSamples
        in case interp_write (mem ! outP) outs2 of
             None \<Rightarrow> None
           | Some out1 \<Rightarrow>
        let mem1 = mem[outP := out1];
            state3 = state2\<lparr>outputFifo := fifoOut, tempOut := tempOut2, resamplerOut := rsOut\<rparr>
        in if mix < 1
           then (case mix_loop mem1 inP outP (1 - mix) mix 0 numSamples of
                   None \<Rightarrow> None
                 | Some mem2 \<Rightarrow> Some (state3, mem2))
           else Some (state3, mem1))))"

text \<open>\<^verbatim>\<open>juce::AudioBuffer<float>\<close>: the channel arrays and the number of samples in each.\<close>

record AudioBuffer =
  bufNumSamples :: int
  bufChannels :: "sample list list"

definition getNumSamples :: "AudioBuffer \<Rightarrow> int" where
  "getNumSamples buf = bufNumSamples buf"

definition getNumChannels :: "AudioBuffer \<Rightarrow> int" where
  "getNumChannels buf = int (length (bufChannels buf))"

definition jlimit :: "real \<Rightarrow> real \<Rightarrow> real \<Rightarrow> real" where
  "jlimit lowerLimit upperLimit v =
     (if v < lowerLimit then lowerLimit else if upperLimit < v then upperLimit else v)"

text \<open>The loop \<^verbatim>\<open>for (int ch = 0; ch < channelsToProcess; ++ch)\<close>; the channel array is
  both the input and the output of \<^verbatim>\<open>processChannel\<close>.\<close>

function channel_loop ::
  "'r Interp \<Rightarrow> 'r OnnxDenoiser \<Rightarrow> sample list list \<Rightarrow> int \<Rightarrow> real \<Rightarrow> int \<Rightarrow> int
     \<Rightarrow> ('r OnnxDenoiser \<times> sample list list) option" where
  "channel_loop ip den mem numSamples mix ch channelsToProcess =
     (if ch < channelsToProcess then
        (if ch < 0 \<or> length (channels den) \<le> nat ch then None
         else case processChannel ip den (channels den ! nat ch) mem (nat ch) (nat ch)
                     numSamples mix of
                None \<Rightarrow> None
              | Some (state, mem') \<Rightarrow>
                  channel_loop ip (den\<lparr>channels := (channels den)[nat ch := state]\<rparr>) mem'
                    numSamples mix (ch + 1) channelsToProcess)
      else Some (den, mem))"
  by pat_completeness auto
termination
  by (relation "measure (\<lambda>(ip, den, mem, numSamples, mix, ch, channelsToProcess).
                            nat (channelsToProcess - ch))") auto

definition processBlock ::
  "'r Interp \<Rightarrow> Env \<Rightarrow> 'r OnnxDenoiser \<Rightarrow> AudioBuffer \<Rightarrow> real
     \<Rightarrow> ('r OnnxDenoiser \<times> AudioBuffer) option" where
  "processBlock ip env den buf mix =
     (if \<not> enabled den then Some (den, buf)
      else if mix \<le> 0 then Some (den, buf)
      else
        (case loadDefaultModelIfNeeded env den of
           (False, den') \<Rightarrow> Some (den', buf)
         | (True, den') \<Rightarrow>
             let mix' = jlimit 0 1 mix;
                 numSamples = getNumSamples buf;
                 channelsToProcess = min (getNumChannels buf) (int (length (channels den')))
             in case channel_loop ip den' (bufChannels buf) numSamples mix' 0 channelsToProcess of
                  None \<Rightarrow> None
                | Some (den'', mem) \<Rightarrow> Some (den'', buf\<lparr>bufChannels := mem\<rparr>)))"

text \<open>What \<^verbatim>\<open>prepare\<close> establishes for each channel and \<^verbatim>\<open>processChannel\<close> keeps.\<close>

definition channel_prepared :: "'r ChannelState \<Rightarrow> bool" where
  "channel_prepared state \<longleftrightarrow>
     rb_inv (inputFifo state) \<and> rb_inv (outputFifo state)
     \<and> capacity (inputFifo state) = modelFrameSize * 32
     \<and> capacity (outputFifo state) = modelFrameSize * 32
     \<and> length (frameIn state) = nat modelFrameSize
     \<and> length (frameOut state) = nat modelFrameSize"

subsection \<open>Test doubles for the concrete examples\<close>

text \<open>An interpolator that copies the first \<open>numOut\<close> input samples (padded with
  zeros), a session that returns its input frame, one that always throws, and an
  environment where every file with a non-empty path exists and only the CPU backend may build a session.\<close>

definition hold_interp :: "unit Interp" where
  "hold_interp =
     \<lparr>interp_init = (), interp_reset = (\<lambda>_. ()),
      interp_process = (\<lambda>_ ratio inp numOut.
         ((), take (nat numOut) inp @ replicate (nat numOut - length inp) 0, numOut))\<rparr>"

definition identity_session :: Session where
  "identity_session shape frame = Outputs [frame]"

definition throwing_session :: Session where
  "throwing_session shape frame = Throws"

definition test_env :: "Session option \<Rightarrow> Env" where
  "test_env loadable =
     \<lparr>existsAsFile = (\<lambda>path. path \<noteq> []), getChildFile = (\<lambda>dir name. dir @ ''/'' @ name),
      searchDirs = [''/opt/vrs''],
      useDml = False, useCuda = False, useRocm = False, useCoreml = False,
      envDmlDeviceId = None, envQnnBackendPath = [],
      appendDmlProvider = (\<lambda>_. False), ortAppendQnn = (\<lambda>_. False),
      createSession = (\<lambda>file provider.
         case loadable of
           None \<Rightarrow> None
         | Some s \<Rightarrow> if provider = cpu then Some (s, [1, 480]) else None)\<rparr>"

text \<open>A prepared channel whose input FIFO holds one frame of ones.\<close>

definition bypass_example :: "unit ChannelState" where
  "bypass_example =
     \<lparr>resamplerIn = (), resamplerOut = (),
      inputFifo = \<lparr>buffer = replicate 15360 1, capacity = 15360, readIndex = 0,
                   writeIndex = 480, availableSamples = 480\<rparr>,
      outputFifo = \<lparr>buffer = replicate 15360 0, capacity = 15360, readIndex = 0,
                    writeIndex = 0, availableSamples = 0\<rparr>,
      tempIn = [], tempOut = [], frameIn = replicate 480 0, frameOut = replicate 480 0\<rparr>"

text \<open>The relation between a channel before and after \<^verbatim>\<open>processBlock\<close>: it is still
  prepared, and \<^verbatim>\<open>tempIn\<close> and \<^verbatim>\<open>tempOut\<close> have not shrunk and have grown at most to
  \<open>tin\<close> and \<open>tout\<close>.\<close>

definition grown :: "nat \<Rightarrow> nat \<Rightarrow> 'r ChannelState \<Rightarrow> 'r ChannelState \<Rightarrow> bool" where
  "grown tin tout s s' \<longleftrightarrow>
     channel_prepared s'
     \<and> length (tempIn s) \<le> length (tempIn s') \<and> length (tempIn s') \<le> max (length (tempIn s)) tin
     \<and> length (tempOut s) \<le> length (tempOut s') \<and> length (tempOut s') \<le> max (length (tempOut s)) tout"

text \<open>The fields \<^verbatim>\<open>processBlock\<close> reads besides the session, which loading a model keeps.\<close>

definition audio_config :: "'r OnnxDenoiser \<Rightarrow> bool \<times> real \<times> real \<times> 'r ChannelState list" where
  "audio_config den = (enabled den, resampleInRatio den, resampleOutRatio den, channels den)"

text \<open>A denoiser prepared at 48 kHz with one channel, a loaded session and enabled; a
  block of one sample; and the denoiser after \<^verbatim>\<open>processBlock\<close> on that block.\<close>

definition example_env :: Env where
  "example_env = test_env (Some identity_session)"

definition example_den :: "unit OnnxDenoiser" where
  "example_den = setEnabled (the (prepare hold_interp example_env OnnxDenoiser_init 48000 1 512)) True"

definition example_buf :: AudioBuffer where
  "example_buf = \<lparr>bufNumSamples = 1, bufChannels = [[1]]\<rparr>"

definition example_after :: "unit OnnxDenoiser" where
  "example_after =
     example_den\<lparr>channels :=
        [\<lparr>resamplerIn = (), resamplerOut = (),
          inputFifo = \<lparr>buffer = 1 # replicate 15359 0, capacity = 15360, readIndex = 0,
                       writeIndex = 1, availableSamples = 1\<rparr>,
          outputFifo = \<lparr>buffer = replicate 15360 0, capacity = 15360, readIndex = 0,
                        writeIndex = 0, availableSamples = 0\<rparr>,
          tempIn = [1], tempOut = [0], frameIn = replicate 480 0,
          frameOut = replicate 480 0\<rparr>]\<rparr>"

section \<open>The ring buffer\<close>

subsection \<open>Index arithmetic and memory copies\<close>

lemma mod_shift:
  fixes j w c :: int
  assumes "0 \<le> j" "j < c" "0 \<le> w" "w < c"
  shows "(j - w) mod c = (if w \<le> j then j - w else j - w + c)"
proof (cases "w \<le> j")
  case True
  with assms show ?thesis by (simp add: mod_pos_pos_trivial)
next
  case False
  have "(j - w) mod c = (j - w + c) mod c" by simp
  also have "\<dots> = j - w + c" using assms False by (intro mod_pos_pos_trivial) linarith+
  finally show ?thesis using False by simp
qed

lemma cpp_rem_nonneg: "0 \<le> a \<Longrightarrow> 0 < b \<Longrightarrow> cpp_rem a b = Some (a mod b)"
  by (cases "a = 0") (simp_all add: cpp_rem_def)

lemma length_ring_put [simp]: "length (ring_put b w xs) = length b"
  by (simp add: ring_put_def)

lemma ring_put_nth:
  assumes "j < length b" "0 \<le> w" "w < int (length b)"
  shows "ring_put b w xs ! j =
           (if w \<le> int j
            then (if int j - w < int (length xs) then xs ! (j - nat w) else b ! j)
            else (if int j - w + int (length b) < int (length xs)
                  then xs ! (j + length b - nat w) else b ! j))"
proof -
  have k: "(int j - w) mod int (length b) =
             (if w \<le> int j then int j - w else int j - w + int (length b))"
    using mod_shift[of "int j" "int (length b)" w] assms by simp
  have n1: "w \<le> int j \<Longrightarrow> nat (int j - w) = j - nat w" using assms by linarith
  have n2: "\<not> w \<le> int j \<Longrightarrow> nat (int j - w + int (length b)) = j + length b - nat w"
    using assms by linarith
  show ?thesis using assms(1) by (simp add: ring_put_def k n1 n2)
qed

lemma memcpy_length:
  assumes "memcpy dst doff src soff n = Some d"
  shows "length d = length dst"
  using assms by (auto simp: memcpy_def split: if_splits)

lemma memcpy_nth:
  assumes "memcpy dst doff src soff n = Some d" "j < length dst"
  shows "d ! j = (if doff \<le> int j \<and> int j < doff + n then src ! (nat soff + (j - nat doff)) else dst ! j)"
proof -
  from assms(1) have g: "0 \<le> doff" "0 \<le> soff" "0 \<le> n" "doff + n \<le> int (length dst)"
      "soff + n \<le> int (length src)"
    and d: "d = take (nat doff) dst @ take (nat n) (drop (nat soff) src) @ drop (nat (doff + n)) dst"
    by (auto simp: memcpy_def split: if_splits)
  consider "int j < doff" | "doff \<le> int j" "int j < doff + n" | "doff + n \<le> int j" by linarith
  then show "d ! j = (if doff \<le> int j \<and> int j < doff + n then src ! (nat soff + (j - nat doff)) else dst ! j)"
  proof cases
    case 1
    then have "j < nat doff" by linarith
    then show ?thesis using 1 g assms(2) by (simp add: d nth_append)
  next
    case 2
    then have a: "\<not> j < nat doff" "j - nat doff < nat n" by linarith+
    have b: "j - nat doff < length src - nat soff" using 2 g by linarith
    have c: "min (length dst) (nat doff) = nat doff" using g by linarith
    have e: "min (length src - nat soff) (nat n) = nat n" using g by linarith
    show ?thesis using 2 g a b by (simp add: d nth_append c e)
  next
    case 3
    then have a: "\<not> j < nat doff" "\<not> j - nat doff < nat n" using g by linarith+
    have c: "min (length dst) (nat doff) = nat doff" using g by linarith
    have e: "min (length src - nat soff) (nat n) = nat n" using g by linarith
    have f: "nat (doff + n) + j - (nat doff + nat n) = j" using 3 g by linarith
    show ?thesis using 3 g a by (simp add: d nth_append c e f)
  qed
qed

lemma memcpy_Some:
  assumes "0 \<le> doff" "0 \<le> soff" "0 \<le> n" "doff + n \<le> int (length dst)" "soff + n \<le> int (length src)"
  shows "\<exists>d. memcpy dst doff src soff n = Some d"
  using assms by (simp add: memcpy_def)

lemma push_loop_zero: "push_loop rb data count 0 = Some rb"
  by (subst push_loop.simps) simp

lemma push_loop_single:
  assumes cap: "length (buffer rb) = nat (capacity rb)"
    and w: "0 \<le> writeIndex rb" 
    and r: "0 < remaining" "remaining \<le> capacity rb - writeIndex rb"
    and c: "remaining \<le> count" "count \<le> int (length data)"
  shows "push_loop rb data count remaining =
           Some (rb\<lparr>buffer := ring_put (buffer rb) (writeIndex rb)
                                (take (nat remaining) (drop (nat (count - remaining)) data)),
                    writeIndex := (writeIndex rb + remaining) mod capacity rb\<rparr>)"
proof -
  let ?b = "buffer rb" and ?w = "writeIndex rb" and ?c = "capacity rb"
  let ?xs = "take (nat remaining) (drop (nat (count - remaining)) data)"
  have lxs: "length ?xs = nat remaining" using c r by simp
  obtain d where m: "memcpy ?b ?w data (count - remaining) remaining = Some d"
    using memcpy_Some[of ?w "count - remaining" remaining ?b data] cap w r c by auto
  have eq: "d = ring_put ?b ?w ?xs"
  proof (rule nth_equalityI)
    show "length d = length (ring_put ?b ?w ?xs)"
      using memcpy_length[OF m] by simp
  next
    fix j assume "j < length d"
    then have j: "j < length ?b" using memcpy_length[OF m] by simp
    have wl: "?w < int (length ?b)" using cap r by linarith
    have L: "d ! j = (if ?w \<le> int j \<and> int j < ?w + remaining
                      then data ! (nat (count - remaining) + (j - nat ?w)) else ?b ! j)"
      using memcpy_nth[OF m j] .
    have R: "ring_put ?b ?w ?xs ! j =
               (if ?w \<le> int j
                then (if int j - ?w < int (length ?xs) then ?xs ! (j - nat ?w) else ?b ! j)
                else (if int j - ?w + int (length ?b) < int (length ?xs)
                      then ?xs ! (j + length ?b - nat ?w) else ?b ! j))"
      by (rule ring_put_nth[OF j w wl])
    have x: "int j - ?w < remaining \<Longrightarrow> ?w \<le> int j \<Longrightarrow> ?xs ! (j - nat ?w) = data ! (nat (count - remaining) + (j - nat ?w))"
      using c r w by (subst nth_take) (auto simp: nth_drop)
    have y: "\<not> int j - ?w + int (length ?b) < remaining" if "\<not> ?w \<le> int j"
      using that cap r w j by linarith
    show "d ! j = ring_put ?b ?w ?xs ! j"
      unfolding L R using x y lxs r by auto
  qed
  have rem: "cpp_rem (?w + remaining) ?c = Some ((?w + remaining) mod ?c)"
    using w r by (intro cpp_rem_nonneg) auto
  have mn: "min (?c - ?w) remaining = remaining" using r by simp
  show ?thesis
    by (subst push_loop.simps) (simp add: Let_def mn m eq rem push_loop_zero r)
qed


lemma ring_put_Nil [simp]: "ring_put b w [] = b"
proof (rule nth_equalityI)
  fix j assume "j < length (ring_put b w [])"
  then have j: "j < length b" by simp
  then have "0 < int (length b)" by linarith
  then have "0 \<le> (int j - w) mod int (length b)" by (rule pos_mod_sign)
  then show "ring_put b w [] ! j = b ! j" using j by (simp add: ring_put_def Let_def)
qed simp

lemma ring_put_wrap:
  assumes w: "0 \<le> w" "w < int (length b)"
    and l1: "int (length xs1) = int (length b) - w"
    and l2: "int (length xs2) \<le> w"
  shows "ring_put (ring_put b w xs1) 0 xs2 = ring_put b w (xs1 @ xs2)"
proof (rule nth_equalityI)
  fix j assume "j < length (ring_put (ring_put b w xs1) 0 xs2)"
  then have j: "j < length b" by simp
  have pos: "0 < int (length b)" using w by linarith
  have A: "ring_put (ring_put b w xs1) 0 xs2 ! j =
             (if int j < int (length xs2) then xs2 ! j else ring_put b w xs1 ! j)"
    using ring_put_nth[of j "ring_put b w xs1" 0 xs2] j pos by simp
  have B: "ring_put b w xs1 ! j = (if w \<le> int j then xs1 ! (j - nat w) else b ! j)"
    using ring_put_nth[OF j w, of xs1] j l1 by auto
  have C: "ring_put b w (xs1 @ xs2) ! j =
             (if w \<le> int j then xs1 ! (j - nat w)
              else if int j < int (length xs2) then xs2 ! j else b ! j)"
  proof (cases "w \<le> int j")
    case True
    then have "j - nat w < length xs1" using l1 j w by linarith
    moreover have "int j - w < int (length (xs1 @ xs2))" using True l1 j by simp
    ultimately show ?thesis using ring_put_nth[OF j w, of "xs1 @ xs2"] True
      by (simp add: nth_append)
  next
    case False
    have e: "j + length b - nat w = length xs1 + j" using l1 w False by linarith
    have f: "(int j - w + int (length b) < int (length (xs1 @ xs2))) = (int j < int (length xs2))"
      using l1 by auto
    show ?thesis using ring_put_nth[OF j w, of "xs1 @ xs2"] False
      unfolding f e by (simp add: nth_append)
  qed
  show "ring_put (ring_put b w xs1) 0 xs2 ! j = ring_put b w (xs1 @ xs2) ! j"
    unfolding A B C using l2 by auto
qed simp

lemma push_loop_wrap:
  assumes cap: "length (buffer rb) = nat (capacity rb)"
    and w: "0 \<le> writeIndex rb" "writeIndex rb < capacity rb"
    and r: "capacity rb - writeIndex rb < remaining" "remaining \<le> capacity rb"
    and c: "remaining \<le> count" "count \<le> int (length data)"
  shows "push_loop rb data count remaining =
           Some (rb\<lparr>buffer := ring_put (buffer rb) (writeIndex rb)
                                (take (nat remaining) (drop (nat (count - remaining)) data)),
                    writeIndex := (writeIndex rb + remaining) mod capacity rb\<rparr>)"
proof -
  let ?b = "buffer rb" and ?w = "writeIndex rb" and ?c = "capacity rb"
  let ?n1 = "?c - ?w"
  let ?off = "nat (count - remaining)"
  let ?xs1 = "take (nat ?n1) (drop ?off data)"
  let ?rb1 = "rb\<lparr>buffer := ring_put ?b ?w ?xs1, writeIndex := 0\<rparr>"
  let ?r1 = "remaining - ?n1"
  let ?xs2 = "take (nat ?r1) (drop (nat (count - ?r1)) data)"
  have first: "push_loop rb data count remaining = push_loop ?rb1 data count ?r1"
  proof -
    have s: "push_loop rb data count ?n1 =
               Some (rb\<lparr>buffer := ring_put ?b ?w (take (nat ?n1) (drop (nat (count - ?n1)) data)),
                        writeIndex := (?w + ?n1) mod ?c\<rparr>)"
      using cap w r c by (intro push_loop_single) auto
    obtain d where m: "memcpy ?b ?w data (count - remaining) ?n1 = Some d"
      using memcpy_Some[of ?w "count - remaining" ?n1 ?b data] cap w r c by auto
    have eq: "d = ring_put ?b ?w ?xs1"
    proof (rule nth_equalityI)
      show "length d = length (ring_put ?b ?w ?xs1)" using memcpy_length[OF m] by simp
    next
      fix j assume "j < length d"
      then have j: "j < length ?b" using memcpy_length[OF m] by simp
      have wl: "?w < int (length ?b)" using cap w by linarith
      have lx: "int (length ?xs1) = ?n1" using w r c by simp
      have "ring_put ?b ?w ?xs1 ! j = (if ?w \<le> int j then ?xs1 ! (j - nat ?w) else ?b ! j)"
        using ring_put_nth[OF j w(1) wl, of ?xs1] j cap lx by auto
      moreover have "?xs1 ! (j - nat ?w) = data ! (?off + (j - nat ?w))" if "?w \<le> int j"
        using that j cap w r c by (subst nth_take) (auto simp: nth_drop)
      moreover have "int j < ?w + ?n1" using j cap by linarith
      ultimately show "d ! j = ring_put ?b ?w ?xs1 ! j"
        using memcpy_nth[OF m j] by auto
    qed
    have rem: "cpp_rem ?c ?c = Some 0"
      using w by (simp add: cpp_rem_def)
    have mn: "min ?n1 remaining = ?n1" using r by simp
    have pos: "0 < remaining" using r w by linarith
    show ?thesis
      by (subst push_loop.simps) (simp add: Let_def mn m eq rem pos)
  qed
  have second: "push_loop ?rb1 data count ?r1 =
      Some (?rb1\<lparr>buffer := ring_put (buffer ?rb1) (writeIndex ?rb1) ?xs2,
                 writeIndex := (writeIndex ?rb1 + ?r1) mod capacity ?rb1\<rparr>)"
    using cap w r c by (intro push_loop_single) auto
  have cat: "?xs1 @ ?xs2 = take (nat remaining) (drop ?off data)"
  proof -
    have a: "nat (count - ?r1) = ?off + nat ?n1" using w r c by linarith
    have b: "nat remaining = nat ?n1 + nat ?r1" using w r by linarith
    show ?thesis unfolding a b by (simp add: take_add add.commute)
  qed
  have put: "ring_put (ring_put ?b ?w ?xs1) 0 ?xs2 = ring_put ?b ?w (?xs1 @ ?xs2)"
    using cap w r c by (intro ring_put_wrap) auto
  have wi: "?r1 mod ?c = (?w + remaining) mod ?c"
  proof -
    have "(?w + remaining) = ?r1 + ?c" by simp
    then show ?thesis by (metis mod_add_self2)
  qed
  show ?thesis unfolding first second by (simp add: put cat wi)
qed

lemma push_loop_ok:
  assumes cap: "length (buffer rb) = nat (capacity rb)"
    and w: "0 \<le> writeIndex rb" "writeIndex rb < capacity rb"
    and r: "0 \<le> remaining" "remaining \<le> capacity rb"
    and c: "remaining \<le> count" "count \<le> int (length data)"
  shows "push_loop rb data count remaining =
           Some (rb\<lparr>buffer := ring_put (buffer rb) (writeIndex rb)
                                (take (nat remaining) (drop (nat (count - remaining)) data)),
                    writeIndex := (writeIndex rb + remaining) mod capacity rb\<rparr>)"
proof -
  consider "remaining = 0" | "0 < remaining" "remaining \<le> capacity rb - writeIndex rb"
    | "capacity rb - writeIndex rb < remaining" using r by linarith
  then show ?thesis
  proof cases
    case 1
    then show ?thesis using w by (simp add: push_loop_zero mod_pos_pos_trivial)
  next
    case 2
    then show ?thesis using cap w c by (intro push_loop_single) auto
  next
    case 3
    then show ?thesis using cap w r c by (intro push_loop_wrap) auto
  qed
qed


lemma contents_ring_get:
  "0 \<le> capacity rb \<Longrightarrow> length (buffer rb) = nat (capacity rb) \<Longrightarrow>
   contents rb = ring_get (buffer rb) (readIndex rb) (nat (availableSamples rb))"
  by (simp add: contents_def ring_get_def)

lemma push_result:
  assumes inv: "rb_inv rb" and c: "0 < count" "count \<le> capacity rb" "count \<le> int (length data)"
  shows "push rb data count =
           Some (rb\<lparr>buffer := ring_put (buffer rb) (writeIndex rb) (take (nat count) data),
                    writeIndex := (writeIndex rb + count) mod capacity rb,
                    availableSamples := min (capacity rb) (availableSamples rb + count),
                    readIndex := (if min (capacity rb) (availableSamples rb + count) = capacity rb
                                  then (writeIndex rb + count) mod capacity rb else readIndex rb)\<rparr>)"
proof -
  have w: "0 \<le> writeIndex rb" "writeIndex rb < capacity rb"
    using inv by (simp_all add: rb_inv_def)
  have "push_loop rb data count count =
           Some (rb\<lparr>buffer := ring_put (buffer rb) (writeIndex rb)
                                (take (nat count) (drop (nat (count - count)) data)),
                    writeIndex := (writeIndex rb + count) mod capacity rb\<rparr>)"
    using inv w c by (intro push_loop_ok) (auto simp: rb_inv_def)
  then show ?thesis using c by (simp add: push_def Let_def)
qed



lemma ring_index_drop:
  fixes c a n r k :: int
  assumes "1 \<le> c" "0 \<le> a" "a \<le> c" "0 < n" "n \<le> c" "0 \<le> k"
  defines "a' \<equiv> min c (a + n)"
  defines "r' \<equiv> (if a' = c then ((r + a) mod c + n) mod c else r)"
  shows "(r' + k) mod c = (r + (a + n - a') + k) mod c"
proof (cases "a' = c")
  case True
  have "(r' + k) mod c = (((r + a) mod c + n) mod c + k) mod c" using True by (simp add: r'_def)
  also have "\<dots> = (r + a + n + k) mod c" by (simp add: mod_simps)
  also have "r + a + n + k = (r + (a + n - a') + k) + c" using True by simp
  also have "((r + (a + n - a') + k) + c) mod c = (r + (a + n - a') + k) mod c"
    by (rule mod_add_self2)
  finally show ?thesis .
next
  case False
  then have "a' = a + n" unfolding a'_def by linarith
  then show ?thesis using False by (simp add: r'_def)
qed

lemma ring_index_written:
  fixes c a r t k :: int
  shows "((r + t + k) mod c - (r + a) mod c) mod c = (t + k - a) mod c"
proof -
  have "((r + t + k) mod c - (r + a) mod c) mod c = ((r + t + k) - (r + a)) mod c"
    by (simp only: mod_diff_eq)
  also have "(r + t + k) - (r + a) = t + k - a" by simp
  finally show ?thesis .
qed


lemma length_lastn: "length (lastn n xs) = min n (length xs)"
  by (auto simp: lastn_def)

lemma contents_nth:
  "k < nat (availableSamples rb) \<Longrightarrow>
   contents rb ! k = buffer rb ! nat ((readIndex rb + int k) mod capacity rb)"
  by (simp add: contents_def)

lemma length_contents [simp]: "length (contents rb) = nat (availableSamples rb)"
  by (simp add: contents_def)

lemma ring_put_nth_mod:
  assumes "0 \<le> p" "p < int (length b)"
  shows "ring_put b w xs ! nat p =
           (if (p - w) mod int (length b) < int (length xs)
            then xs ! nat ((p - w) mod int (length b)) else b ! nat p)"
  using assms by (simp add: ring_put_def Let_def)

lemma push_contents:
  assumes inv: "rb_inv rb" and c: "0 < count" "count \<le> capacity rb" "count \<le> int (length data)"
    and p: "push rb data count = Some rb'"
  shows "rb_inv rb'" 
    and "capacity rb' = capacity rb"
    and "availableSamples rb' = min (capacity rb) (availableSamples rb + count)"
    and "contents rb' = lastn (nat (availableSamples rb')) (contents rb @ take (nat count) data)"
proof -
  define cap a r w b where "cap = capacity rb" and "a = availableSamples rb"
    and "r = readIndex rb" and "w = writeIndex rb" and "b = buffer rb"
  define xs where "xs = take (nat count) data"
  define a' where "a' = min cap (a + count)"
  define w' where "w' = (w + count) mod cap"
  define r' where "r' = (if a' = cap then w' else r)"
  define t where "t = a + count - a'"
  note defs = cap_def a_def r_def w_def b_def
  have i: "1 \<le> cap" "length b = nat cap" "0 \<le> r" "r < cap" "0 \<le> a" "a \<le> cap"
    and wi: "w = (r + a) mod cap"
    using inv by (simp_all add: rb_inv_def defs)
  have w: "0 \<le> w" "w < cap" using i wi by simp_all
  have cc: "count \<le> cap" using c by (simp add: cap_def)
  have rb': "rb' = rb\<lparr>buffer := ring_put b w xs, writeIndex := w',
                       availableSamples := a', readIndex := r'\<rparr>"
    using push_result[OF inv c] p
    unfolding r'_def w'_def a'_def xs_def defs by simp
  have sel: "capacity rb' = cap" "availableSamples rb' = a'" "readIndex rb' = r'"
    "writeIndex rb' = w'" "buffer rb' = ring_put b w xs"
    by (simp_all add: rb' defs)
  have a'range: "0 \<le> a'" "a' \<le> cap" "a' \<le> a + count" using i c by (simp_all add: a'_def cap_def)
  have t0: "0 \<le> t" using a'range by (simp add: t_def)
  have w'range: "0 \<le> w'" "w' < cap" using i by (simp_all add: w'_def)
  have r'range: "0 \<le> r'" "r' < cap" using i w'range by (simp_all add: r'_def)
  have r'alt: "r' = (if min cap (a + count) = cap then ((r + a) mod cap + count) mod cap else r)"
    by (simp add: r'_def w'_def wi a'_def)
  have shift: "(r' + k) mod cap = (r + t + k) mod cap" if "0 \<le> k" for k
    unfolding r'alt t_def a'_def
    using ring_index_drop[of cap a count k r] i c that by (simp add: cap_def)
  have winv: "w' = (r' + a') mod cap"
  proof (cases "a' = cap")
    case True
    then show ?thesis using w'range by (simp add: r'_def)
  next
    case False
    then have e: "a' = a + count" using a'range unfolding a'_def by linarith
    have "w' = ((r + a) mod cap + count) mod cap" by (simp add: w'_def wi)
    also have "\<dots> = (r + a + count) mod cap" by (simp add: mod_simps)
    also have "r + a + count = r' + a'" using False e by (simp add: r'_def)
    finally show ?thesis .
  qed
  show "capacity rb' = capacity rb" using sel by (simp add: cap_def)
  show "availableSamples rb' = min (capacity rb) (availableSamples rb + count)"
    using sel by (simp add: a'_def defs)
  show "rb_inv rb'"
    unfolding rb_inv_def sel using i a'range r'range winv by simp
  have lx: "length xs = nat count" using c by (simp add: xs_def)
  have lc: "length (contents rb) = nat a" by (simp add: a_def)
  have goal: "contents rb' = lastn (nat a') (contents rb @ xs)"
  proof (rule nth_equalityI)
    have "nat a' \<le> length (contents rb @ xs)" using a'range lx lc i c by simp
    then show "length (contents rb') = length (lastn (nat a') (contents rb @ xs))"
      unfolding length_lastn by (simp add: sel)
  next
    fix k assume "k < length (contents rb')"
    then have k: "int k < a'" "k < nat a'" by (simp_all add: sel)
    define p where "p = (r' + int k) mod cap"
    have prange: "0 \<le> p" "p < cap" using i by (simp_all add: p_def)
    have P: "p = (r + t + int k) mod cap" unfolding p_def by (rule shift) simp
    have K: "(p - w) mod cap = (t + int k - a) mod cap"
      unfolding P wi by (rule ring_index_written)
    have "contents rb' ! k = ring_put b w xs ! nat p"
      using contents_nth[of k rb'] k unfolding sel p_def by simp
    also have "\<dots> = (if (p - w) mod int (length b) < int (length xs)
            then xs ! nat ((p - w) mod int (length b)) else b ! nat p)"
      using prange i by (intro ring_put_nth_mod) simp_all
    also have "int (length b) = cap" using i by simp
    also have "int (length xs) = count" using lx c by simp
    finally have L: "contents rb' ! k =
         (if (t + int k - a) mod cap < count then xs ! nat ((t + int k - a) mod cap) else b ! nat p)"
      unfolding K .
    have d: "length (contents rb @ xs) - nat a' = nat t"
      using lc lx i c a'range t0 unfolding t_def by simp
    have R0: "lastn (nat a') (contents rb @ xs) ! k = (contents rb @ xs) ! (nat t + k)"
      unfolding lastn_def d using k lc lx a'range t0 i c
      by (intro nth_drop) (simp add: t_def)
    show "contents rb' ! k = lastn (nat a') (contents rb @ xs) ! k"
    proof (cases "t + int k < a")
      case True
      have "(t + int k - a) mod cap = (t + int k - a + cap) mod cap" by simp
      also have "\<dots> = t + int k - a + cap"
        using True t0 i by (intro mod_pos_pos_trivial) linarith+
      finally have m: "(t + int k - a) mod cap = t + int k - a + cap" .
      have "\<not> t + int k - a + cap < count" using k a'range unfolding t_def by linarith
      then have L': "contents rb' ! k = b ! nat p" unfolding L m by simp
      have n: "nat t + k < nat a" using True t0 by linarith
      have "(contents rb @ xs) ! (nat t + k) = contents rb ! (nat t + k)"
        using n lc by (simp add: nth_append)
      also have "\<dots> = b ! nat ((r + int (nat t + k)) mod cap)"
        using contents_nth[of "nat t + k" rb] n unfolding defs by simp
      also have "r + int (nat t + k) = r + t + int k" using t0 by simp
      finally show ?thesis unfolding R0 L' P by simp
    next
      case False
      have m: "(t + int k - a) mod cap = t + int k - a"
        using False k c cc i a'range unfolding t_def by (intro mod_pos_pos_trivial) linarith+
      have "t + int k - a < count" using k unfolding t_def by linarith
      then have L': "contents rb' ! k = xs ! nat (t + int k - a)" unfolding L m by simp
      have n: "\<not> nat t + k < length (contents rb)" using False t0 lc by linarith
      have n': "nat t + k - length (contents rb) = nat (t + int k - a)"
        using False lc t0 i by linarith
      have "(contents rb @ xs) ! (nat t + k) = xs ! nat (t + int k - a)"
        using n n' by (simp add: nth_append)
      then show ?thesis unfolding R0 L' by simp
    qed
  qed
  show "contents rb' = lastn (nat (availableSamples rb')) (contents rb @ take (nat count) data)"
    using goal unfolding sel xs_def .
qed


lemma length_ring_get [simp]: "length (ring_get b r n) = n"
  by (simp add: ring_get_def)

lemma ring_get_straight:
  assumes "0 \<le> r" "r + int n \<le> int (length b)"
  shows "ring_get b r n = take n (drop (nat r) b)"
proof (rule nth_equalityI)
  show "length (ring_get b r n) = length (take n (drop (nat r) b))" using assms by simp
next
  fix i assume "i < length (ring_get b r n)"
  then have i: "i < n" by simp
  have "(r + int i) mod int (length b) = r + int i"
    using assms i by (intro mod_pos_pos_trivial) linarith+
  moreover have "nat (r + int i) = nat r + i" using assms by linarith
  ultimately show "ring_get b r n ! i = take n (drop (nat r) b) ! i"
    using i assms by (simp add: ring_get_def)
qed

lemma ring_get_add:
  "ring_get b r (n1 + n2) = ring_get b r n1 @ ring_get b ((r + int n1) mod int (length b)) n2"
proof (rule nth_equalityI)
  fix i assume "i < length (ring_get b r (n1 + n2))"
  then have i: "i < n1 + n2" by simp
  show "ring_get b r (n1 + n2) ! i =
          (ring_get b r n1 @ ring_get b ((r + int n1) mod int (length b)) n2) ! i"
  proof (cases "i < n1")
    case True
    then show ?thesis using i by (simp add: ring_get_def nth_append)
  next
    case False
    then have j: "i - n1 < n2" using i by linarith
    have "((r + int n1) mod int (length b) + int (i - n1)) mod int (length b)
            = (r + int n1 + int (i - n1)) mod int (length b)" by (simp add: mod_simps)
    also have "r + int n1 + int (i - n1) = r + int i" using False by simp
    finally show ?thesis using False i j by (simp add: ring_get_def nth_append)
  qed
qed simp

lemma drop_append_drop:
  assumes "length ys = x" "x \<le> n"
  shows "drop n (ys @ drop x zs) = drop n zs"
  using assms by simp

lemma pop_loop_zero: "pop_loop rb dest toRead 0 = Some (rb, dest)"
  by (subst pop_loop.simps) simp

lemma pop_loop_single:
  assumes cap: "length (buffer rb) = nat (capacity rb)"
    and r: "0 \<le> readIndex rb"
    and m: "0 < remaining" "remaining \<le> capacity rb - readIndex rb"
    and c: "remaining \<le> toRead" "toRead \<le> int (length dest)"
  shows "pop_loop rb dest toRead remaining =
           Some (rb\<lparr>readIndex := (readIndex rb + remaining) mod capacity rb\<rparr>,
                 take (nat (toRead - remaining)) dest
                 @ ring_get (buffer rb) (readIndex rb) (nat remaining)
                 @ drop (nat toRead) dest)"
proof -
  let ?b = "buffer rb" and ?r = "readIndex rb" and ?c = "capacity rb"
  have g: "ring_get ?b ?r (nat remaining) = take (nat remaining) (drop (nat ?r) ?b)"
    using cap r m by (intro ring_get_straight) auto
  have mc: "memcpy dest (toRead - remaining) ?b ?r remaining =
          Some (take (nat (toRead - remaining)) dest @ ring_get ?b ?r (nat remaining)
                @ drop (nat toRead) dest)"
    using cap r m c by (simp add: memcpy_def g)
  have rem: "cpp_rem (?r + remaining) ?c = Some ((?r + remaining) mod ?c)"
    using r m by (intro cpp_rem_nonneg) auto
  have mn: "min (?c - ?r) remaining = remaining" using m by simp
  show ?thesis
    by (subst pop_loop.simps) (simp add: Let_def mn mc rem pop_loop_zero m)
qed

lemma pop_loop_wrap:
  assumes cap: "length (buffer rb) = nat (capacity rb)"
    and r: "0 \<le> readIndex rb" "readIndex rb < capacity rb"
    and m: "capacity rb - readIndex rb < remaining" "remaining \<le> capacity rb"
    and c: "remaining \<le> toRead" "toRead \<le> int (length dest)"
  shows "pop_loop rb dest toRead remaining =
           Some (rb\<lparr>readIndex := (readIndex rb + remaining) mod capacity rb\<rparr>,
                 take (nat (toRead - remaining)) dest
                 @ ring_get (buffer rb) (readIndex rb) (nat remaining)
                 @ drop (nat toRead) dest)"
proof -
  let ?b = "buffer rb" and ?r = "readIndex rb" and ?c = "capacity rb"
  let ?n1 = "?c - ?r"
  let ?r1 = "remaining - ?n1"
  let ?d1 = "take (nat (toRead - remaining)) dest @ ring_get ?b ?r (nat ?n1)
             @ drop (nat (toRead - ?r1)) dest"
  let ?rb1 = "rb\<lparr>readIndex := 0\<rparr>"
  have g: "ring_get ?b ?r (nat ?n1) = take (nat ?n1) (drop (nat ?r) ?b)"
    using cap r by (intro ring_get_straight) auto
  have e: "toRead - remaining + ?n1 = toRead - ?r1" by simp
  have mc: "memcpy dest (toRead - remaining) ?b ?r ?n1 = Some ?d1"
    using cap r m c unfolding memcpy_def e g by simp
  have rem: "cpp_rem ?c ?c = Some 0" using r by (simp add: cpp_rem_def)
  have mn: "min ?n1 remaining = ?n1" using m by simp
  have pos: "0 < remaining" using r m by linarith
  have first: "pop_loop rb dest toRead remaining = pop_loop ?rb1 ?d1 toRead ?r1"
    by (subst pop_loop.simps) (simp add: Let_def mn mc rem pos)
  have ld: "length ?d1 = length dest" using r m c by simp
  have second: "pop_loop ?rb1 ?d1 toRead ?r1 =
      Some (?rb1\<lparr>readIndex := (readIndex ?rb1 + ?r1) mod capacity ?rb1\<rparr>,
            take (nat (toRead - ?r1)) ?d1 @ ring_get (buffer ?rb1) (readIndex ?rb1) (nat ?r1)
            @ drop (nat toRead) ?d1)"
    using cap r m c ld by (intro pop_loop_single) auto
  have t1: "take (nat (toRead - ?r1)) ?d1 =
              take (nat (toRead - remaining)) dest @ ring_get ?b ?r (nat ?n1)"
    using r m c by simp
  have t2: "drop (nat toRead) ?d1 = drop (nat toRead) dest"
  proof -
    let ?ys = "take (nat (toRead - remaining)) dest @ ring_get ?b ?r (nat ?n1)"
    have ly: "length ?ys = nat (toRead - ?r1)" using r m c by simp
    have le: "nat (toRead - ?r1) \<le> nat toRead" using r m by linarith
    have "drop (nat toRead) (?ys @ drop (nat (toRead - ?r1)) dest) = drop (nat toRead) dest"
      using ly le by (rule drop_append_drop)
    then show ?thesis by simp
  qed
  have sp: "ring_get ?b ?r (nat remaining) = ring_get ?b ?r (nat ?n1) @ ring_get ?b 0 (nat ?r1)"
  proof -
    have "nat remaining = nat ?n1 + nat ?r1" using r m by linarith
    moreover have "(?r + int (nat ?n1)) mod int (length ?b) = 0" using cap r by simp
    ultimately show ?thesis using ring_get_add[of ?b ?r "nat ?n1" "nat ?r1"] by simp
  qed
  have wi: "?r1 mod ?c = (?r + remaining) mod ?c"
  proof -
    have "(?r + remaining) = ?r1 + ?c" by simp
    then show ?thesis by (metis mod_add_self2)
  qed
  show ?thesis unfolding first second t1 t2 by (simp add: sp wi)
qed

lemma pop_loop_ok:
  assumes cap: "length (buffer rb) = nat (capacity rb)"
    and r: "0 \<le> readIndex rb" "readIndex rb < capacity rb"
    and m: "0 \<le> remaining" "remaining \<le> capacity rb"
    and c: "remaining \<le> toRead" "toRead \<le> int (length dest)"
  shows "pop_loop rb dest toRead remaining =
           Some (rb\<lparr>readIndex := (readIndex rb + remaining) mod capacity rb\<rparr>,
                 take (nat (toRead - remaining)) dest
                 @ ring_get (buffer rb) (readIndex rb) (nat remaining)
                 @ drop (nat toRead) dest)"
proof -
  consider "remaining = 0" | "0 < remaining" "remaining \<le> capacity rb - readIndex rb"
    | "capacity rb - readIndex rb < remaining" using m by linarith
  then show ?thesis
  proof cases
    case 1
    then show ?thesis using r by (simp add: pop_loop_zero mod_pos_pos_trivial ring_get_def)
  next
    case 2
    then show ?thesis using cap r c by (intro pop_loop_single) auto
  next
    case 3
    then show ?thesis using cap r m c by (intro pop_loop_wrap) auto
  qed
qed


lemma pop_result:
  assumes inv: "rb_inv rb" and c: "0 < count" "count \<le> int (length dest)"
  defines "n \<equiv> min count (availableSamples rb)"
  shows "pop rb dest count fillWithZeros =
           Some (rb\<lparr>readIndex := (readIndex rb + n) mod capacity rb,
                    availableSamples := availableSamples rb - n\<rparr>,
                 take (nat n) (contents rb)
                 @ (if fillWithZeros then replicate (nat (count - n)) 0
                    else take (nat (count - n)) (drop (nat n) dest))
                 @ drop (nat count) dest,
                 n)"
proof -
  let ?b = "buffer rb" and ?r = "readIndex rb" and ?c = "capacity rb"
  have i: "1 \<le> ?c" "length ?b = nat ?c" "0 \<le> ?r" "?r < ?c" "0 \<le> availableSamples rb"
      "availableSamples rb \<le> ?c"
    using inv by (simp_all add: rb_inv_def)
  have n: "0 \<le> n" "n \<le> count" "n \<le> ?c" "n \<le> availableSamples rb"
    using i c by (simp_all add: n_def)
  let ?g = "ring_get ?b ?r (nat n)"
  have loop: "pop_loop rb dest n n =
           Some (rb\<lparr>readIndex := (?r + n) mod ?c\<rparr>,
                 take (nat (n - n)) dest @ ?g @ drop (nat n) dest)"
    using i n c by (intro pop_loop_ok) auto
  have tk: "take (nat n) (contents rb) = ?g"
  proof -
    have "contents rb = ring_get ?b ?r (nat (availableSamples rb))"
      using i by (intro contents_ring_get) auto
    moreover have "nat n \<le> nat (availableSamples rb)" using n by linarith
    ultimately show ?thesis by (simp add: ring_get_def take_map min_absorb2)
  qed
  have lg: "length ?g = nat n" by simp
  have le: "nat n \<le> nat count" using n by linarith
  have fz: "fill_zero (?g @ drop (nat n) dest) n count =
              Some (?g @ replicate (nat (count - n)) 0 @ drop (nat count) dest)"
  proof -
    have "drop (nat count) (?g @ drop (nat n) dest) = drop (nat count) dest"
      using lg le by (rule drop_append_drop)
    then show ?thesis using n c by (simp add: fill_zero_def)
  qed
  have nofill: "?g @ drop (nat n) dest =
                  ?g @ take (nat (count - n)) (drop (nat n) dest) @ drop (nat count) dest"
  proof -
    have e: "nat count = nat (count - n) + nat n" using n by linarith
    have "drop (nat count) dest = drop (nat (count - n)) (drop (nat n) dest)"
      unfolding e by (simp only: drop_drop)
    then have "take (nat (count - n)) (drop (nat n) dest) @ drop (nat count) dest = drop (nat n) dest"
      by (simp only: append_take_drop_id)
    then show ?thesis by simp
  qed
  show ?thesis
  proof (cases "fillWithZeros \<and> n < count")
    case True
    then show ?thesis using c loop fz tk unfolding pop_def n_def[symmetric] Let_def by simp
  next
    case False
    show ?thesis
    proof (cases fillWithZeros)
      case True
      with False have "n = count" using n by linarith
      then show ?thesis using c loop tk True unfolding pop_def n_def[symmetric] Let_def by simp
    next
      case False
      then show ?thesis using c loop tk nofill unfolding pop_def n_def[symmetric] Let_def by simp
    qed
  qed
qed

lemma pop_contents:
  assumes inv: "rb_inv rb" and c: "0 < count" "count \<le> int (length dest)"
    and p: "pop rb dest count fillWithZeros = Some (rb', dest', n)"
  shows "rb_inv rb'"
    and "capacity rb' = capacity rb"
    and "n = min count (availableSamples rb)"
    and "availableSamples rb' = availableSamples rb - n"
    and "contents rb' = drop (nat n) (contents rb)"
    and "length dest' = length dest"
    and "take (nat n) dest' = take (nat n) (contents rb)"
proof -
  define cap a r where "cap = capacity rb" and "a = availableSamples rb" and "r = readIndex rb"
  note defs = cap_def a_def r_def
  have i: "1 \<le> cap" "length (buffer rb) = nat cap" "0 \<le> r" "r < cap" "0 \<le> a" "a \<le> cap"
    and wi: "writeIndex rb = (r + a) mod cap"
    using inv by (simp_all add: rb_inv_def defs)
  define m where "m = min count a"
  have m: "0 \<le> m" "m \<le> count" "m \<le> a" using i c by (simp_all add: m_def)
  from pop_result[OF inv c, of fillWithZeros] p
  have rb': "rb' = rb\<lparr>readIndex := (r + m) mod cap, availableSamples := a - m\<rparr>"
    and d': "dest' = take (nat m) (contents rb)
                 @ (if fillWithZeros then replicate (nat (count - m)) 0
                    else take (nat (count - m)) (drop (nat m) dest))
                 @ drop (nat count) dest"
    and nm: "n = m"
    by (simp_all add: defs m_def)
  show "n = min count (availableSamples rb)" using nm by (simp add: m_def a_def)
  show "capacity rb' = capacity rb" by (simp add: rb')
  show "availableSamples rb' = availableSamples rb - n" by (simp add: rb' nm a_def)
  have "((r + m) mod cap + (a - m)) mod cap = (r + m + (a - m)) mod cap" by (simp add: mod_simps)
  also have "r + m + (a - m) = r + a" by simp
  finally have w: "writeIndex rb = ((r + m) mod cap + (a - m)) mod cap" using wi by simp
  show "rb_inv rb'"
    unfolding rb_inv_def using i m w by (simp add: rb' cap_def[symmetric])
  have lc: "length (contents rb) = nat a" by (simp add: a_def)
  show "take (nat n) dest' = take (nat n) (contents rb)"
    using m lc by (simp add: d' nm)
  show "length dest' = length dest"
    using m lc c by (auto simp: d')
  show "contents rb' = drop (nat n) (contents rb)"
  proof (rule nth_equalityI)
    show "length (contents rb') = length (drop (nat n) (contents rb))"
      using m by (simp add: rb' nm a_def)
  next
    fix k assume "k < length (contents rb')"
    then have k: "k < nat (a - m)" by (simp add: rb')
    then have k2: "nat m + k < nat a" using m by linarith
    have "contents rb' ! k = buffer rb ! nat (((r + m) mod cap + int k) mod cap)"
      using contents_nth[of k rb'] k by (simp add: rb' cap_def)
    also have "((r + m) mod cap + int k) mod cap = (r + m + int k) mod cap"
      by (simp add: mod_simps)
    also have "r + m + int k = r + int (nat m + k)" using m by simp
    also have "buffer rb ! nat ((r + int (nat m + k)) mod cap) = contents rb ! (nat m + k)"
      using contents_nth[of "nat m + k" rb] k2 by (simp add: defs)
    also have "\<dots> = drop (nat n) (contents rb) ! k"
      using k2 lc by (simp add: nm)
    finally show "contents rb' ! k = drop (nat n) (contents rb) ! k" .
  qed
qed

lemma push_clamp:
  "capacity rb < count \<Longrightarrow> 0 < capacity rb \<Longrightarrow> push rb data count = push rb data (capacity rb)"
  by (simp add: push_def)

lemma lastn_all: "length xs \<le> n \<Longrightarrow> lastn n xs = xs"
  by (simp add: lastn_def)

subsection \<open>What a push keeps\<close>

lemma push_within_capacity:
  assumes "rb_inv rb" and "count \<le> capacity rb" and "count \<le> int (length data)"
  shows "\<exists>rb'. push rb data count = Some rb' \<and> rb_inv rb' \<and> capacity rb' = capacity rb
           \<and> available rb' = min (capacity rb) (available rb + max 0 count)
           \<and> contents rb' = lastn (nat (available rb')) (contents rb @ take (nat count) data)"
proof (cases "0 < count")
  case True
  obtain rb' where p: "push rb data count = Some rb'"
    using push_result[OF assms(1) True assms(2,3)] by simp
  show ?thesis
    using push_contents[OF assms(1) True assms(2,3) p] p True
    by (simp add: available_def max_def)
next
  case False
  then have "push rb data count = Some rb" by (simp add: push_def)
  moreover have "availableSamples rb \<le> capacity rb" "0 \<le> availableSamples rb"
    using assms(1) by (simp_all add: rb_inv_def)
  ultimately show ?thesis using False assms(1)
    by (simp add: available_def max_def lastn_all)
qed

lemma push_init: "push RingBuffer_init data count = Some RingBuffer_init"
  by (simp add: push_def RingBuffer_init_def push_loop_zero)

text \<open>
  Claim C6, as amended. Take a ring buffer in a valid state (as constructed, or
  satisfying the representation invariant that \<^verbatim>\<open>resize\<close> establishes and every operation
  keeps) and a push of \<open>count\<close> samples with \<open>count\<close> at most the capacity (and at most the
  length of the source array). Then \<^verbatim>\<open>push\<close> returns, the state is valid again with the
  same capacity, and the buffer holds exactly the last \<open>min capacity (available + count)\<close>
  samples of its previous contents followed by the pushed samples, in arrival order: only
  the oldest samples are dropped. A push with \<open>count \<le> 0\<close> changes nothing.
\<close>

theorem push_keeps_newest_within_capacity:
  assumes "rb_state_ok rb" and "count \<le> capacity rb" and "count \<le> int (length data)"
  shows "\<exists>rb'. push rb data count = Some rb' \<and> rb_state_ok rb' \<and> capacity rb' = capacity rb
           \<and> available rb' = min (capacity rb) (available rb + max 0 count)
           \<and> contents rb' = lastn (nat (available rb')) (contents rb @ take (nat count) data)"
proof (cases "rb = RingBuffer_init")
  case True
  then have c: "count \<le> 0" using assms(2) by (simp add: RingBuffer_init_def)
  have p: "push rb data count = Some rb" using True by (simp add: push_init)
  have e: "contents rb = []" "available rb = 0" "capacity rb = 0"
    using True by (simp_all add: contents_def available_def RingBuffer_init_def)
  have "contents rb = lastn (nat (available rb)) (contents rb @ take (nat count) data)"
    using c unfolding e by (simp add: lastn_def)
  moreover have "available rb = min (capacity rb) (available rb + max 0 count)"
    using c unfolding e by simp
  ultimately show ?thesis using p assms(1) by blast
next
  case False
  then have "rb_inv rb" using assms(1) by (simp add: rb_state_ok_def)
  from push_within_capacity[OF this assms(2,3)] show ?thesis
    by (auto simp: rb_state_ok_def)
qed

theorem push_keeps_newest_witness:
  "rb_inv \<lparr>buffer = [1, 2, 0], capacity = 3, readIndex = 0, writeIndex = 2, availableSamples = 2\<rparr>
   \<and> (\<exists>rb'. push \<lparr>buffer = [1, 2, 0], capacity = 3, readIndex = 0, writeIndex = 2,
                    availableSamples = 2\<rparr> [3, 4] 2 = Some rb'
         \<and> available rb' = 3 \<and> contents rb' = [2, 3, 4])"
proof -
  let ?rb = "\<lparr>buffer = [1, 2, 0], capacity = 3, readIndex = 0, writeIndex = 2, availableSamples = 2\<rparr>"
  have i: "rb_inv ?rb" by (simp add: rb_inv_def)
  then have ok: "rb_state_ok ?rb" by (simp add: rb_state_ok_def)
  have c: "contents ?rb = [1, 2]" by (simp add: contents_def upt_rec nat_numeral)
  from push_keeps_newest_within_capacity[OF ok, of 2 "[3, 4]"] i c show ?thesis
    by (auto simp: available_def lastn_def)
qed

text \<open>
  Claim C6 as stated fails when \<open>count\<close> exceeds the capacity: \<^verbatim>\<open>push\<close> lowers \<open>count\<close>
  to the capacity and copies from the start of the source, so it keeps the first
  \<open>capacity\<close> pushed samples. Pushing \<open>[1, 2, 3]\<close> into an empty buffer of capacity 2
  leaves \<open>[1, 2]\<close>, where the last two samples of the sequence are \<open>[2, 3]\<close>.
\<close>

theorem push_beyond_capacity_counterexample:
  "map_option contents (push (resize RingBuffer_init 2) [1, 2, 3] 3) = Some [1, 2]
   \<and> lastn (nat (min (capacity (resize RingBuffer_init 2))
                      (available (resize RingBuffer_init 2) + 3)))
            (contents (resize RingBuffer_init 2) @ [1, 2, 3]) = [2, 3]"
  by (simp add: push_def resize_def RingBuffer_init_def push_loop.simps memcpy_def cpp_rem_def
      contents_def lastn_def available_def upt_rec nat_numeral)

subsection \<open>The available count stays within the capacity\<close>

lemma resize_inv: "rb_inv (resize rb n)"
  by (simp add: rb_inv_def resize_def Let_def max_def)

lemma clear_ok: "rb_state_ok rb \<Longrightarrow> rb_state_ok (clear rb)"
  by (auto simp: rb_state_ok_def clear_def RingBuffer_init_def rb_inv_def)

lemma push_ok:
  assumes "rb_state_ok rb" "count \<le> int (length data)"
  shows "\<exists>rb'. push rb data count = Some rb' \<and> rb_state_ok rb'"
proof -
  consider "rb = RingBuffer_init" | "rb_inv rb" "count \<le> capacity rb"
    | "rb_inv rb" "capacity rb < count"
    using assms(1) unfolding rb_state_ok_def by fastforce
  then show ?thesis
  proof cases
    case 1
    then show ?thesis by (simp add: push_init rb_state_ok_def)
  next
    case 2
    then show ?thesis
      using push_within_capacity[OF 2(1) 2(2) assms(2)]
      by (auto simp: rb_state_ok_def)
  next
    case 3
    then have pos: "0 < capacity rb" by (simp add: rb_inv_def)
    have "capacity rb \<le> int (length data)" using 3 assms(2) by linarith
    then show ?thesis
      using push_within_capacity[OF 3(1) order_refl, of data]
      unfolding push_clamp[OF 3(2) pos] by (auto simp: rb_state_ok_def)
  qed
qed

lemma pop_init:
  "count \<le> int (length dest) \<Longrightarrow>
   \<exists>d n. pop RingBuffer_init dest count fillWithZeros = Some (RingBuffer_init, d, n)"
  by (simp add: pop_def RingBuffer_init_def pop_loop_zero fill_zero_def)

lemma pop_ok:
  assumes "rb_state_ok rb" "count \<le> int (length dest)"
  shows "\<exists>rb' d n. pop rb dest count fillWithZeros = Some (rb', d, n) \<and> rb_state_ok rb'"
proof -
  consider "rb = RingBuffer_init" | "count \<le> 0" | "rb_inv rb" "0 < count"
    using assms(1) unfolding rb_state_ok_def by fastforce
  then show ?thesis
  proof cases
    case 1
    then show ?thesis using pop_init[OF assms(2), of fillWithZeros]
      unfolding rb_state_ok_def by blast
  next
    case 2
    then show ?thesis using assms(1) by (simp add: pop_def)
  next
    case 3
    obtain rb' d n where p: "pop rb dest count fillWithZeros = Some (rb', d, n)"
      using pop_result[OF 3(1) 3(2) assms(2)] by blast
    show ?thesis using pop_contents(1)[OF 3(1) 3(2) assms(2) p] p
      by (simp add: rb_state_ok_def)
  qed
qed

lemma run_op_ok:
  assumes "rb_state_ok rb" "op_ok x"
  shows "\<exists>rb'. run_op rb x = Some rb' \<and> rb_state_ok rb'"
proof (cases x)
  case (Resize n)
  then show ?thesis by (simp add: resize_inv rb_state_ok_def)
next
  case Clear
  then show ?thesis using assms by (simp add: clear_ok)
next
  case (Push data count)
  then show ?thesis using assms push_ok[of rb count data] by simp
next
  case (Pop dest count fillWithZeros)
  then show ?thesis using assms pop_ok[of rb count dest fillWithZeros] by auto
qed

lemma run_ops_ok:
  "rb_state_ok rb \<Longrightarrow> list_all op_ok ops \<Longrightarrow>
   \<exists>rb'. run_ops rb ops = Some rb' \<and> rb_state_ok rb'"
proof (induction ops arbitrary: rb)
  case Nil
  then show ?case by simp
next
  case (Cons x xs)
  then obtain rb1 where "run_op rb x = Some rb1" "rb_state_ok rb1"
    using run_op_ok[of rb x] by auto
  then show ?case using Cons by simp
qed

lemma rb_state_ok_bounds:
  "rb_state_ok rb \<Longrightarrow> 0 \<le> available rb \<and> available rb \<le> capacity rb"
  by (auto simp: rb_state_ok_def RingBuffer_init_def rb_inv_def available_def)

text \<open>
  Claim C7. Take any sequence of \<^verbatim>\<open>resize\<close>, \<^verbatim>\<open>clear\<close>, \<^verbatim>\<open>push\<close> and \<^verbatim>\<open>pop\<close> calls with
  valid arguments (each array holds at least \<open>count\<close> elements), started on a freshly
  constructed ring buffer. After every operation of the sequence, that is after each of
  its prefixes, the calls so far have returned and \<open>0 \<le> available \<le> capacity\<close> holds.
\<close>

theorem available_never_exceeds_capacity:
  assumes "list_all op_ok ops"
  shows "\<forall>n \<le> length ops.
           \<exists>rb. run_ops RingBuffer_init (take n ops) = Some rb
                \<and> 0 \<le> available rb \<and> available rb \<le> capacity rb"
proof (intro allI impI)
  fix n
  have i: "rb_state_ok RingBuffer_init" by (simp add: rb_state_ok_def)
  have "list_all op_ok (take n ops)"
    using assms unfolding list_all_iff by (meson in_set_takeD)
  from run_ops_ok[OF i this]
  show "\<exists>rb. run_ops RingBuffer_init (take n ops) = Some rb
                \<and> 0 \<le> available rb \<and> available rb \<le> capacity rb"
    using rb_state_ok_bounds by blast
qed

theorem available_never_exceeds_capacity_witness:
  "list_all op_ok [Resize 2, Push [1, 2, 3] 3, Pop [0, 0] 1 False, Push [4, 5] 2, Clear]
   \<and> (\<exists>rb. run_ops RingBuffer_init
               [Resize 2, Push [1, 2, 3] 3, Pop [0, 0] 1 False, Push [4, 5] 2] = Some rb
         \<and> 0 \<le> available rb \<and> available rb \<le> capacity rb)"
proof -
  have h: "list_all op_ok [Resize 2, Push [1, 2, 3] 3, Pop [0, 0] 1 False, Push [4, 5] 2, Clear]"
    by simp
  from available_never_exceeds_capacity[OF h, rule_format, of 4] h show ?thesis by simp
qed

section \<open>Backend names and the fallback order\<close>

text \<open>
  Claim C9. For every backend identifier \<open>p\<close>, \<^verbatim>\<open>providerFromString\<close> maps the canonical name
  of \<open>p\<close> back to \<open>p\<close>; so the name of that identifier is again the name of \<open>p\<close>: the round
  trip string, identifier, string is stable.
\<close>

theorem provider_name_round_trip:
  "providerFromString (providerToString p) = p
   \<and> providerToString (providerFromString (providerToString p)) = providerToString p"
  by (induct p) code_simp+

text \<open>
  Claim C4, as amended. With fallback disallowed, the fallback order is the one-element
  list of the preferred backend for every preferred backend other than \<open>Auto\<close>; for
  \<open>Auto\<close> it is the fixed priority list.
\<close>

theorem fallback_order_without_fallback:
  assumes "\<not> allowFallback den"
  shows "getProviderFallbackOrder den =
           (if preferredProvider den = autoSelect then [qnn, dml, cuda, rocm, coreml, cpu]
            else [preferredProvider den])"
  using assms by (simp add: getProviderFallbackOrder_def)

theorem fallback_order_without_fallback_witness:
  "\<not> allowFallback (setAllowFallback (setPreferredProvider (OnnxDenoiser_init :: unit OnnxDenoiser) cuda) False)
   \<and> getProviderFallbackOrder
        (setAllowFallback (setPreferredProvider (OnnxDenoiser_init :: unit OnnxDenoiser) cuda) False)
       = [cuda]"
proof -
  let ?den = "setAllowFallback (setPreferredProvider (OnnxDenoiser_init :: unit OnnxDenoiser) cuda) False"
  have h: "\<not> allowFallback ?den" by (simp add: setAllowFallback_def)
  from fallback_order_without_fallback[OF h] h show ?thesis
    by (simp add: setAllowFallback_def setPreferredProvider_def)
qed

text \<open>
  Claim C4 as stated fails for the preferred backend \<open>Auto\<close>: the guard of the
  one-element answer excludes it, and the order is the full priority list.
\<close>

theorem fallback_order_auto_counterexample:
  "getProviderFallbackOrder
     (setAllowFallback (setPreferredProvider (OnnxDenoiser_init :: unit OnnxDenoiser) autoSelect) False)
   \<noteq> [autoSelect]"
  by (simp add: getProviderFallbackOrder_def setAllowFallback_def setPreferredProvider_def)

section \<open>Configuration changes and the session\<close>

text \<open>
  Claim C5 says that each of \<^verbatim>\<open>setModelPath\<close>, \<^verbatim>\<open>clearModelPath\<close>, \<^verbatim>\<open>setPreferredProvider\<close>
  and \<^verbatim>\<open>setAllowFallback\<close> destroys the session. On a denoiser with a loaded session the
  first three do, and \<^verbatim>\<open>setAllowFallback\<close> leaves it ready.
\<close>

theorem setAllowFallback_keeps_session:
  "isReady (OnnxDenoiser_init\<lparr>session := Some identity_session\<rparr> :: unit OnnxDenoiser)
   \<and> isReady (setAllowFallback (OnnxDenoiser_init\<lparr>session := Some identity_session\<rparr> :: unit OnnxDenoiser) False)
   \<and> \<not> isReady (setModelPath (OnnxDenoiser_init\<lparr>session := Some identity_session\<rparr> :: unit OnnxDenoiser) ''m.onnx'')
   \<and> \<not> isReady (clearModelPath (OnnxDenoiser_init\<lparr>session := Some identity_session\<rparr> :: unit OnnxDenoiser))
   \<and> \<not> isReady (setPreferredProvider (OnnxDenoiser_init\<lparr>session := Some identity_session\<rparr> :: unit OnnxDenoiser) cpu)"
  by (simp add: isReady_def setAllowFallback_def setModelPath_def clearModelPath_def
      setPreferredProvider_def)

section \<open>Passthrough\<close>

text \<open>
  Claim C10. When the denoiser is disabled, which it is after construction and after
  \<^verbatim>\<open>setEnabled (false)\<close>, \<^verbatim>\<open>processBlock\<close> returns at once: the audio buffer and the
  denoiser are unchanged, for every mix value and whatever the session is.
\<close>

theorem disabled_is_passthrough:
  "processBlock ip env (setEnabled den False) buf mix = Some (setEnabled den False, buf)
   \<and> processBlock ip env OnnxDenoiser_init buf mix = Some (OnnxDenoiser_init, buf)
   \<and> (\<not> isEnabled den \<longrightarrow> processBlock ip env den buf mix = Some (den, buf))"
  by (simp add: processBlock_def setEnabled_def OnnxDenoiser_init_def isEnabled_def)


theorem disabled_is_passthrough_witness:
  "\<not> isEnabled (OnnxDenoiser_init\<lparr>session := Some identity_session\<rparr> :: unit OnnxDenoiser)
   \<and> processBlock hold_interp (test_env None)
         (OnnxDenoiser_init\<lparr>session := Some identity_session\<rparr>)
         \<lparr>bufNumSamples = 2, bufChannels = [[1, 2]]\<rparr> 1
       = Some (OnnxDenoiser_init\<lparr>session := Some identity_session\<rparr>,
               \<lparr>bufNumSamples = 2, bufChannels = [[1, 2]]\<rparr>)"
  using disabled_is_passthrough[of hold_interp "test_env None"
          "OnnxDenoiser_init\<lparr>session := Some identity_session\<rparr>"
          "\<lparr>bufNumSamples = 2, bufChannels = [[1, 2]]\<rparr>" 1]
  by (simp add: isEnabled_def OnnxDenoiser_init_def)

lemma tryCreate_fails_no_session:
  assumes "session den = None" "\<not> fst (tryCreateSessionForProvider env den file provider)"
  shows "session (snd (tryCreateSessionForProvider env den file provider)) = None"
  using assms
  by (auto simp: tryCreateSessionForProvider_def Let_def split: if_splits option.splits)

lemma try_providers_fails_no_session:
  "session den = None \<Longrightarrow> \<not> fst (try_providers env den file ps) \<Longrightarrow>
   session (snd (try_providers env den file ps)) = None"
proof (induction ps arbitrary: den)
  case Nil
  then show ?case by simp
next
  case (Cons p ps)
  show ?case
  proof (cases "isProviderUsable env p")
    case False
    then show ?thesis using Cons by simp
  next
    case True
    obtain ok den' where t: "tryCreateSessionForProvider env den file p = (ok, den')"
      by (cases "tryCreateSessionForProvider env den file p")
    show ?thesis
    proof (cases ok)
      case True
      then show ?thesis using Cons.prems t \<open>isProviderUsable env p\<close> by simp
    next
      case False
      then have "session den' = None"
        using tryCreate_fails_no_session[of den env "file" p] Cons.prems(1) t by simp
      then show ?thesis
        using Cons.IH[of den'] Cons.prems(2) t False \<open>isProviderUsable env p\<close> by simp
    qed
  qed
qed

lemma try_candidates_fails_no_session:
  "session den = None \<Longrightarrow> \<not> fst (try_candidates env den ps cs) \<Longrightarrow>
   session (snd (try_candidates env den ps cs)) = None"
proof (induction cs arbitrary: den)
  case Nil
  then show ?case by simp
next
  case (Cons c cs)
  show ?case
  proof (cases "existsAsFile env c")
    case False
    then show ?thesis using Cons by simp
  next
    case True
    obtain ok den' where t: "try_providers env den c ps = (ok, den')"
      by (cases "try_providers env den c ps")
    show ?thesis
    proof (cases ok)
      case True
      then show ?thesis using Cons.prems t \<open>existsAsFile env c\<close> by simp
    next
      case False
      then have "session den' = None"
        using try_providers_fails_no_session[of den env c ps] Cons.prems(1) t by simp
      then show ?thesis
        using Cons.IH[of den'] Cons.prems(2) t False \<open>existsAsFile env c\<close> by simp
    qed
  qed
qed

lemma load_fails_no_session:
  assumes "\<not> fst (loadDefaultModelIfNeeded env den)"
  shows "session den = None" and "session (snd (loadDefaultModelIfNeeded env den)) = None"
proof -
  show n: "session den = None"
    using assms by (auto simp: loadDefaultModelIfNeeded_def split: if_splits)
  let ?ps = "getProviderFallbackOrder den"
  obtain ok den1 where f: "(if existsAsFile env (modelPath den)
                 then try_providers env den (modelPath den) ?ps else (False, den)) = (ok, den1)"
    by (cases "if existsAsFile env (modelPath den)
                 then try_providers env den (modelPath den) ?ps else (False, den)")
  have l: "loadDefaultModelIfNeeded env den =
             (if ok then (True, den1) else try_candidates env den1 ?ps (getModelCandidates env den1))"
    using n f by (simp add: loadDefaultModelIfNeeded_def Let_def)
  have nok: "\<not> ok" using assms l by auto
  have "session den1 = None"
  proof (cases "existsAsFile env (modelPath den)")
    case True
    then show ?thesis
      using try_providers_fails_no_session[of den env "modelPath den" ?ps] n f nok by simp
  next
    case False
    then show ?thesis using f n by auto
  qed
  then show "session (snd (loadDefaultModelIfNeeded env den)) = None"
    using try_candidates_fails_no_session[of den1 env ?ps "getModelCandidates env den1"]
      assms l nok by simp
qed

text \<open>
  Claim C1. When no session is loaded and the load attempted by \<^verbatim>\<open>processBlock\<close> fails
  (\<^verbatim>\<open>loadDefaultModelIfNeeded\<close> returns false: every candidate file and backend has been
  tried), \<^verbatim>\<open>processBlock\<close> returns the audio buffer unchanged for every buffer and every
  mix value, and the denoiser is still not ready.
\<close>

theorem passthrough_without_session:
  assumes "\<not> fst (loadDefaultModelIfNeeded env den)"
  shows "\<not> isReady den
         \<and> (\<exists>den'. processBlock ip env den buf mix = Some (den', buf) \<and> \<not> isReady den')"
proof -
  obtain den1 where l: "loadDefaultModelIfNeeded env den = (False, den1)"
    using assms by (cases "loadDefaultModelIfNeeded env den") auto
  have "session den1 = None" using load_fails_no_session(2)[OF assms] l by simp
  moreover have "session den = None" by (rule load_fails_no_session(1)[OF assms])
  ultimately show ?thesis using l by (auto simp: processBlock_def isReady_def)
qed

text \<open>In particular the load fails when the runtime can build no session at all.\<close>

lemma tryCreate_without_backend:
  assumes "\<forall>file provider. createSession env file provider = None"
  shows "\<not> fst (tryCreateSessionForProvider env den file provider)"
  using assms by (simp add: tryCreateSessionForProvider_def Let_def)

lemma try_providers_without_backend:
  assumes "\<forall>file provider. createSession env file provider = None"
  shows "\<not> fst (try_providers env den file ps)"
proof (induction ps arbitrary: den)
  case Nil
  then show ?case by simp
next
  case (Cons p ps)
  then show ?case
    using tryCreate_without_backend[OF assms, of den "file" p]
    by (cases "tryCreateSessionForProvider env den file p") auto
qed

lemma try_candidates_without_backend:
  assumes "\<forall>file provider. createSession env file provider = None"
  shows "\<not> fst (try_candidates env den ps cs)"
proof (induction cs arbitrary: den)
  case Nil
  then show ?case by simp
next
  case (Cons c cs)
  then show ?case
    using try_providers_without_backend[OF assms, of den c ps]
    by (cases "try_providers env den c ps") auto
qed

lemma load_without_backend:
  assumes "\<forall>file provider. createSession env file provider = None" "session den = None"
  shows "\<not> fst (loadDefaultModelIfNeeded env den)"
proof -
  let ?ps = "getProviderFallbackOrder den"
  obtain ok den1 where f: "(if existsAsFile env (modelPath den)
                 then try_providers env den (modelPath den) ?ps else (False, den)) = (ok, den1)"
    by (cases "if existsAsFile env (modelPath den)
                 then try_providers env den (modelPath den) ?ps else (False, den)")
  have "\<not> ok"
    using f try_providers_without_backend[OF assms(1), of den "modelPath den" ?ps]
    by (auto split: if_splits)
  then show ?thesis
    using f assms(2) try_candidates_without_backend[OF assms(1)]
    by (simp add: loadDefaultModelIfNeeded_def Let_def)
qed

theorem passthrough_without_session_witness:
  "\<not> fst (loadDefaultModelIfNeeded (test_env None) (setEnabled (OnnxDenoiser_init :: unit OnnxDenoiser) True))
   \<and> (\<exists>den'. processBlock hold_interp (test_env None) (setEnabled OnnxDenoiser_init True)
                 \<lparr>bufNumSamples = 2, bufChannels = [[1, 2], [3, 4]]\<rparr> 1
               = Some (den', \<lparr>bufNumSamples = 2, bufChannels = [[1, 2], [3, 4]]\<rparr>)
             \<and> \<not> isReady den')"
proof -
  have "\<forall>file provider. createSession (test_env None) file provider = None"
    by (simp add: test_env_def)
  moreover have "session (setEnabled (OnnxDenoiser_init :: unit OnnxDenoiser) True) = None"
    by (simp add: setEnabled_def OnnxDenoiser_init_def)
  ultimately have
    h: "\<not> fst (loadDefaultModelIfNeeded (test_env None) (setEnabled (OnnxDenoiser_init :: unit OnnxDenoiser) True))"
    by (rule load_without_backend)
  from passthrough_without_session[OF h, of hold_interp
         "\<lparr>bufNumSamples = 2, bufChannels = [[1, 2], [3, 4]]\<rparr>" 1] h
  show ?thesis by simp
qed

section \<open>Frames and inference failures\<close>

lemma runModel_total:
  assumes "length output = nat frameSize" "0 \<le> frameSize" "frameSize \<le> int (length input)"
  shows "\<exists>ok out. runModel sess shape0 input output frameSize = Some (ok, out)
            \<and> length out = length output \<and> (\<not> ok \<longrightarrow> out = output)"
proof (cases sess)
  case None
  then show ?thesis by (auto simp: runModel_def)
next
  case (Some run)
  show ?thesis
  proof (cases "run (resolveInputShape shape0 frameSize) (take (nat frameSize) input)")
    case Throws
    then show ?thesis using Some assms by (auto simp: runModel_def)
  next
    case (Outputs ts)
    show ?thesis
    proof (cases "length ts = 0")
      case True
      then show ?thesis using Some Outputs assms by (auto simp: runModel_def)
    next
      case False
      define n where "n = min frameSize (int (length (ts ! 0)))"
      have nr: "0 \<le> n" "n \<le> frameSize" "n \<le> int (length (ts ! 0))"
        using assms by (simp_all add: n_def)
      obtain o1 where m: "memcpy output 0 (ts ! 0) 0 n = Some o1"
        using memcpy_Some[of 0 0 n "output" "ts ! 0"] assms nr by auto
      have l1: "length o1 = length output" by (rule memcpy_length[OF m])
      have r: "runModel sess shape0 input output frameSize =
                 (if n < frameSize
                  then (case fill_zero o1 n frameSize of None \<Rightarrow> None
                        | Some out2 \<Rightarrow> Some (True, out2))
                  else Some (True, o1))"
        using Some Outputs False assms
        by (simp add: runModel_def Let_def n_def[symmetric] m)
      show ?thesis
      proof (cases "n < frameSize")
        case True
        define out2 where "out2 = take (nat n) o1 @ replicate (nat (frameSize - n)) 0 @ drop (nat frameSize) o1"
        have "fill_zero o1 n frameSize = Some out2"
          using assms l1 nr by (simp add: fill_zero_def out2_def)
        moreover have "length out2 = length output"
          using assms l1 nr unfolding out2_def by simp
        ultimately show ?thesis using r True by auto
      next
        case n: False
        then show ?thesis using r l1 by auto
      qed
    qed
  qed
qed

lemma runModel_fails:
  assumes "sess = None \<or> (\<exists>run. sess = Some run
              \<and> (run (resolveInputShape shape0 frameSize) (take (nat frameSize) input) = Throws
                  \<or> run (resolveInputShape shape0 frameSize) (take (nat frameSize) input) = Outputs []))"
    and "0 \<le> frameSize" "frameSize \<le> int (length input)"
  shows "runModel sess shape0 input output frameSize = Some (False, output)"
  using assms by (auto simp: runModel_def)

lemma frame_step_result:
  assumes prep: "channel_prepared state"
    and av: "modelFrameSize \<le> available (inputFifo state)"
  defines "frame \<equiv> take (nat modelFrameSize) (contents (inputFifo state))"
  shows "\<exists>ok fout fifoIn fifoOut.
           runModel sess shape0 frame (frameOut state) modelFrameSize = Some (ok, fout)
           \<and> (\<not> ok \<longrightarrow> fout = frameOut state)
           \<and> length fout = nat modelFrameSize
           \<and> frame_step sess shape0 state =
               Some (state\<lparr>inputFifo := fifoIn, frameIn := frame, frameOut := fout,
                           outputFifo := fifoOut\<rparr>)
           \<and> rb_inv fifoIn \<and> capacity fifoIn = capacity (inputFifo state)
           \<and> availableSamples fifoIn = availableSamples (inputFifo state) - modelFrameSize
           \<and> contents fifoIn = drop (nat modelFrameSize) (contents (inputFifo state))
           \<and> rb_inv fifoOut \<and> capacity fifoOut = capacity (outputFifo state)
           \<and> availableSamples fifoOut =
               min (capacity (outputFifo state)) (availableSamples (outputFifo state) + modelFrameSize)
           \<and> contents fifoOut =
               lastn (nat (availableSamples fifoOut))
                 (contents (outputFifo state) @ (if ok then fout else frame))"
proof -
  have p: "rb_inv (inputFifo state)" "rb_inv (outputFifo state)"
      "capacity (inputFifo state) = modelFrameSize * 32"
      "capacity (outputFifo state) = modelFrameSize * 32"
      "length (frameIn state) = nat modelFrameSize"
      "length (frameOut state) = nat modelFrameSize"
    using prep by (simp_all add: channel_prepared_def)
  have fs: "0 < modelFrameSize" by (simp add: modelFrameSize_def)
  have c: "modelFrameSize \<le> int (length (frameIn state))" using p fs by simp
  have av': "modelFrameSize \<le> availableSamples (inputFifo state)"
    using av by (simp add: available_def)
  obtain fifoIn fin n where
    pp: "pop (inputFifo state) (frameIn state) modelFrameSize False = Some (fifoIn, fin, n)"
    using pop_result[OF p(1) fs c, of False] by blast
  note pc = pop_contents[OF p(1) fs c pp]
  have n: "n = modelFrameSize" using pc(3) av' by simp
  have fin: "fin = frame"
  proof -
    have "length fin = nat modelFrameSize" using pc(6) p by simp
    then have "take (nat n) fin = fin" using n by simp
    then show ?thesis using pc(7) n by (simp add: frame_def)
  qed
  have lf: "length frame = nat modelFrameSize" using fin pc(6) p by simp
  obtain ok fout where rm: "runModel sess shape0 frame (frameOut state) modelFrameSize = Some (ok, fout)"
    and lo: "length fout = length (frameOut state)" and nk: "\<not> ok \<longrightarrow> fout = frameOut state"
    using runModel_total[of "frameOut state" modelFrameSize frame sess shape0] p fs lf by auto
  let ?src = "if ok then fout else frame"
  have ls: "length ?src = nat modelFrameSize" using lo lf p by simp
  have c2: "modelFrameSize \<le> capacity (outputFifo state)" using p fs by simp
  have c3: "modelFrameSize \<le> int (length ?src)" using ls fs by simp
  obtain fifoOut where pu: "push (outputFifo state) ?src modelFrameSize = Some fifoOut"
    using push_result[OF p(2) fs c2 c3] by blast
  note qc = push_contents[OF p(2) fs c2 c3 pu]
  have tk: "take (nat modelFrameSize) ?src = ?src" using ls by simp
  have st: "frame_step sess shape0 state =
               Some (state\<lparr>inputFifo := fifoIn, frameIn := frame, frameOut := fout,
                           outputFifo := fifoOut\<rparr>)"
    using pp fin rm pu by (simp add: frame_step_def)
  have "runModel sess shape0 frame (frameOut state) modelFrameSize = Some (ok, fout)
           \<and> (\<not> ok \<longrightarrow> fout = frameOut state)
           \<and> length fout = nat modelFrameSize
           \<and> frame_step sess shape0 state =
               Some (state\<lparr>inputFifo := fifoIn, frameIn := frame, frameOut := fout,
                           outputFifo := fifoOut\<rparr>)
           \<and> rb_inv fifoIn \<and> capacity fifoIn = capacity (inputFifo state)
           \<and> availableSamples fifoIn = availableSamples (inputFifo state) - modelFrameSize
           \<and> contents fifoIn = drop (nat modelFrameSize) (contents (inputFifo state))
           \<and> rb_inv fifoOut \<and> capacity fifoOut = capacity (outputFifo state)
           \<and> availableSamples fifoOut =
               min (capacity (outputFifo state)) (availableSamples (outputFifo state) + modelFrameSize)
           \<and> contents fifoOut =
               lastn (nat (availableSamples fifoOut))
                 (contents (outputFifo state) @ (if ok then fout else frame))"
    using rm nk lo p(6) st pc(1,2,4,5) n qc(1,2,3) qc(4)[unfolded tk] by simp
  then show ?thesis by blast
qed


lemma frame_step_prepared:
  assumes prep: "channel_prepared state"
    and av: "modelFrameSize \<le> available (inputFifo state)"
  shows "\<exists>state'. frame_step sess shape0 state = Some state' \<and> channel_prepared state'
           \<and> available (inputFifo state') = available (inputFifo state) - modelFrameSize
           \<and> tempIn state' = tempIn state \<and> tempOut state' = tempOut state
           \<and> resamplerIn state' = resamplerIn state \<and> resamplerOut state' = resamplerOut state"
proof -
  let ?frame = "take (nat modelFrameSize) (contents (inputFifo state))"
  have lf: "length ?frame = nat modelFrameSize"
    using av by (simp add: available_def)
  from frame_step_result[OF prep av, of sess shape0]
  obtain ok fout fifoIn fifoOut where
    st: "frame_step sess shape0 state =
               Some (state\<lparr>inputFifo := fifoIn, frameIn := ?frame, frameOut := fout,
                           outputFifo := fifoOut\<rparr>)"
    and f: "length fout = nat modelFrameSize" "rb_inv fifoIn"
      "capacity fifoIn = capacity (inputFifo state)"
      "availableSamples fifoIn = availableSamples (inputFifo state) - modelFrameSize"
      "rb_inv fifoOut" "capacity fifoOut = capacity (outputFifo state)"
    by blast
  show ?thesis
    using st f lf prep by (simp add: channel_prepared_def available_def)
qed

lemma frame_loop_total:
  assumes "channel_prepared state"
  shows "\<exists>final. frame_loop sess shape0 state = Some final \<and> channel_prepared final
           \<and> available (inputFifo final) < modelFrameSize
           \<and> tempIn final = tempIn state \<and> tempOut final = tempOut state
           \<and> resamplerIn final = resamplerIn state \<and> resamplerOut final = resamplerOut state"
  using assms
proof (induction "nat (available (inputFifo state))" arbitrary: state rule: less_induct)
  case less
  show ?case
  proof (cases "modelFrameSize \<le> available (inputFifo state)")
    case False
    then show ?thesis using less.prems by (subst frame_loop.simps) simp
  next
    case True
    from frame_step_prepared[OF less.prems True, of sess shape0]
    obtain state' where s: "frame_step sess shape0 state = Some state'"
      "channel_prepared state'"
      "available (inputFifo state') = available (inputFifo state) - modelFrameSize"
      "tempIn state' = tempIn state" "tempOut state' = tempOut state"
      "resamplerIn state' = resamplerIn state" "resamplerOut state' = resamplerOut state"
      by blast
    have "nat (available (inputFifo state')) < nat (available (inputFifo state))"
      using s(3) True by (simp add: modelFrameSize_def)
    from less.hyps[OF this s(2)] s True show ?thesis
      by (subst frame_loop.simps) simp
  qed
qed

lemma channel_loop_frame:
  "channel_loop ip den mem numSamples mix ch n = Some (den', mem') \<Longrightarrow>
   \<exists>cs. den' = den\<lparr>channels := cs\<rparr> \<and> length cs = length (channels den)"
proof (induction ip den mem numSamples mix ch n rule: channel_loop.induct)
  case (1 ip den mem numSamples mix ch n)
  show ?case
  proof (cases "ch < n")
    case False
    then have "den' = den" using "1.prems" by simp
    then show ?thesis by (intro exI[of _ "channels den"]) simp
  next
    case True
    then have r: "\<not> (ch < 0 \<or> length (channels den) \<le> nat ch)"
      using "1.prems" by (auto split: if_splits)
    then obtain st mem1 where
      pc: "processChannel ip den (channels den ! nat ch) mem (nat ch) (nat ch) numSamples mix
             = Some (st, mem1)"
      using "1.prems" True by (auto split: option.splits)
    let ?den1 = "den\<lparr>channels := (channels den)[nat ch := st]\<rparr>"
    have "channel_loop ip ?den1 mem1 numSamples mix (ch + 1) n = Some (den', mem')"
      using "1.prems" True r pc by simp
    from "1.IH"[OF True r pc refl this]
    obtain cs where "den' = ?den1\<lparr>channels := cs\<rparr>" "length cs = length (channels ?den1)"
      by blast
    then show ?thesis by (intro exI[of _ cs]) simp
  qed
qed

lemma processBlock_keeps_session:
  assumes "isReady den" "processBlock ip env den buf mix = Some (den', buf')"
  shows "session den' = session den"
proof -
  have l: "loadDefaultModelIfNeeded env den = (True, den)"
    using assms(1) by (simp add: loadDefaultModelIfNeeded_def isReady_def)
  let ?loop = "channel_loop ip den (bufChannels buf) (getNumSamples buf) (jlimit 0 1 mix) 0
         (min (getNumChannels buf) (int (length (channels den))))"
  have pb: "processBlock ip env den buf mix =
          (if \<not> enabled den then Some (den, buf)
           else if mix \<le> 0 then Some (den, buf)
           else case ?loop of None \<Rightarrow> None
                | Some (den'', mem) \<Rightarrow> Some (den'', buf\<lparr>bufChannels := mem\<rparr>))"
    by (simp add: processBlock_def l Let_def)
  show ?thesis
  proof (cases "\<not> enabled den \<or> mix \<le> 0")
    case True
    then have "den' = den" using assms(2) unfolding pb by (simp split: if_splits)
    then show ?thesis by simp
  next
    case False
    then have c: "(case ?loop of None \<Rightarrow> None
                | Some (den'', mem) \<Rightarrow> Some (den'', buf\<lparr>bufChannels := mem\<rparr>)) = Some (den', buf')"
      using assms(2) unfolding pb by simp
    then obtain mem2 where "?loop = Some (den', mem2)"
      by (cases ?loop) auto
    from channel_loop_frame[OF this] show ?thesis by auto
  qed
qed

lemma frame_bypass:
  assumes "channel_prepared state"
    and "modelFrameSize \<le> available (inputFifo state)"
    and "runModel sess shape0 (take (nat modelFrameSize) (contents (inputFifo state)))
           (frameOut state) modelFrameSize = Some (False, fout)"
  shows "\<exists>state'. frame_step sess shape0 state = Some state'
           \<and> frameIn state' = take (nat modelFrameSize) (contents (inputFifo state))
           \<and> frameOut state' = frameOut state
           \<and> contents (inputFifo state') = drop (nat modelFrameSize) (contents (inputFifo state))
           \<and> available (outputFifo state') =
               min (capacity (outputFifo state)) (available (outputFifo state) + modelFrameSize)
           \<and> contents (outputFifo state') =
               lastn (nat (available (outputFifo state')))
                 (contents (outputFifo state)
                  @ take (nat modelFrameSize) (contents (inputFifo state)))
           \<and> frame_loop sess shape0 state = frame_loop sess shape0 state'
           \<and> (\<exists>final. frame_loop sess shape0 state' = Some final
                 \<and> available (inputFifo final) < modelFrameSize)"
    and "isReady den \<and> processBlock ip env den buf mix = Some (den', buf')
           \<longrightarrow> isReady den' \<and> session den' = session den"
proof -
  let ?frame = "take (nat modelFrameSize) (contents (inputFifo state))"
  from frame_step_result[OF assms(1,2), of sess shape0] assms(3)
  obtain fifoIn fifoOut where
    st: "frame_step sess shape0 state =
               Some (state\<lparr>inputFifo := fifoIn, frameIn := ?frame, frameOut := frameOut state,
                           outputFifo := fifoOut\<rparr>)"
    and f: "contents fifoIn = drop (nat modelFrameSize) (contents (inputFifo state))"
      "availableSamples fifoOut =
         min (capacity (outputFifo state)) (availableSamples (outputFifo state) + modelFrameSize)"
      "contents fifoOut =
         lastn (nat (availableSamples fifoOut)) (contents (outputFifo state) @ ?frame)"
    by auto
  let ?s' = "state\<lparr>inputFifo := fifoIn, frameIn := ?frame, frameOut := frameOut state,
                           outputFifo := fifoOut\<rparr>"
  have prep': "channel_prepared ?s'"
    using frame_step_prepared[OF assms(1,2), of sess shape0] st by auto
  have unfold: "frame_loop sess shape0 state = frame_loop sess shape0 ?s'"
    using assms(2) st by (subst frame_loop.simps) simp
  obtain final where "frame_loop sess shape0 ?s' = Some final"
    "available (inputFifo final) < modelFrameSize"
    using frame_loop_total[OF prep', of sess shape0] by blast
  then show "\<exists>state'. frame_step sess shape0 state = Some state'
           \<and> frameIn state' = take (nat modelFrameSize) (contents (inputFifo state))
           \<and> frameOut state' = frameOut state
           \<and> contents (inputFifo state') = drop (nat modelFrameSize) (contents (inputFifo state))
           \<and> available (outputFifo state') =
               min (capacity (outputFifo state)) (available (outputFifo state) + modelFrameSize)
           \<and> contents (outputFifo state') =
               lastn (nat (available (outputFifo state')))
                 (contents (outputFifo state)
                  @ take (nat modelFrameSize) (contents (inputFifo state)))
           \<and> frame_loop sess shape0 state = frame_loop sess shape0 state'
           \<and> (\<exists>final. frame_loop sess shape0 state' = Some final
                 \<and> available (inputFifo final) < modelFrameSize)"
    using st f unfold by (intro exI[of _ ?s']) (simp add: available_def)
  show "isReady den \<and> processBlock ip env den buf mix = Some (den', buf')
           \<longrightarrow> isReady den' \<and> session den' = session den"
    using processBlock_keeps_session[of den ip env buf mix den' buf']
    by (auto simp: isReady_def)
qed

text \<open>
  Claim C3. Take a prepared channel whose input FIFO holds at least one model frame.
  If inference on the frame popped from it fails, that is \<^verbatim>\<open>runModel\<close> returns false, then
  the loop iteration completes; the frame pushed into the output FIFO is the popped
  input frame, unchanged, so the output FIFO holds its previous contents followed by that
  frame; the loop goes on with the remaining frames and runs until fewer than a frame is
  left. \<^verbatim>\<open>runModel\<close> returns false, leaving \<^verbatim>\<open>frameOut\<close> untouched, when there is no session,
  when the session throws and when it returns no output tensor. Whatever the outcome of
  inference, a ready denoiser is still ready, with the same session, after
  \<^verbatim>\<open>processBlock\<close>.
\<close>

theorem failed_inference_bypasses_frame:
  assumes "channel_prepared state"
    and "modelFrameSize \<le> available (inputFifo state)"
  shows "(runModel sess shape0 (take (nat modelFrameSize) (contents (inputFifo state)))
            (frameOut state) modelFrameSize = Some (False, fout)
          \<longrightarrow> (\<exists>state'. frame_step sess shape0 state = Some state'
                 \<and> frameIn state' = take (nat modelFrameSize) (contents (inputFifo state))
                 \<and> frameOut state' = frameOut state
                 \<and> contents (inputFifo state')
                     = drop (nat modelFrameSize) (contents (inputFifo state))
                 \<and> available (outputFifo state') =
                     min (capacity (outputFifo state))
                         (available (outputFifo state) + modelFrameSize)
                 \<and> contents (outputFifo state') =
                     lastn (nat (available (outputFifo state')))
                       (contents (outputFifo state)
                        @ take (nat modelFrameSize) (contents (inputFifo state)))
                 \<and> frame_loop sess shape0 state = frame_loop sess shape0 state'
                 \<and> (\<exists>final. frame_loop sess shape0 state' = Some final
                       \<and> available (inputFifo final) < modelFrameSize)))
         \<and> (sess = None
              \<or> (\<exists>run. sess = Some run
                    \<and> (run (resolveInputShape shape0 modelFrameSize)
                          (take (nat modelFrameSize) (contents (inputFifo state))) = Throws
                        \<or> run (resolveInputShape shape0 modelFrameSize)
                             (take (nat modelFrameSize) (contents (inputFifo state))) = Outputs []))
              \<longrightarrow> runModel sess shape0 (take (nat modelFrameSize) (contents (inputFifo state)))
                    (frameOut state) modelFrameSize = Some (False, frameOut state))
         \<and> (isReady den \<and> processBlock ip env den buf mix = Some (den', buf')
               \<longrightarrow> isReady den' \<and> session den' = session den)"
proof (intro conjI impI)
  let ?frame = "take (nat modelFrameSize) (contents (inputFifo state))"
  have lf: "modelFrameSize \<le> int (length ?frame)"
    using assms(2) by (simp add: available_def modelFrameSize_def)
  have tf: "take (nat modelFrameSize) ?frame = ?frame" by simp
  show "runModel sess shape0 ?frame (frameOut state) modelFrameSize = Some (False, frameOut state)"
    if "sess = None
         \<or> (\<exists>run. sess = Some run
               \<and> (run (resolveInputShape shape0 modelFrameSize) ?frame = Throws
                   \<or> run (resolveInputShape shape0 modelFrameSize) ?frame = Outputs []))"
  proof -
    have cause: "sess = None
         \<or> (\<exists>run. sess = Some run
               \<and> (run (resolveInputShape shape0 modelFrameSize)
                     (take (nat modelFrameSize) ?frame) = Throws
                   \<or> run (resolveInputShape shape0 modelFrameSize)
                        (take (nat modelFrameSize) ?frame) = Outputs []))"
      using that by (simp only: tf)
    have nn: "0 \<le> modelFrameSize" by (simp add: modelFrameSize_def)
    show ?thesis by (rule runModel_fails[OF cause nn lf])
  qed
next
  assume r: "runModel sess shape0 (take (nat modelFrameSize) (contents (inputFifo state)))
            (frameOut state) modelFrameSize = Some (False, fout)"
  show "\<exists>state'. frame_step sess shape0 state = Some state'
                 \<and> frameIn state' = take (nat modelFrameSize) (contents (inputFifo state))
                 \<and> frameOut state' = frameOut state
                 \<and> contents (inputFifo state')
                     = drop (nat modelFrameSize) (contents (inputFifo state))
                 \<and> available (outputFifo state') =
                     min (capacity (outputFifo state))
                         (available (outputFifo state) + modelFrameSize)
                 \<and> contents (outputFifo state') =
                     lastn (nat (available (outputFifo state')))
                       (contents (outputFifo state)
                        @ take (nat modelFrameSize) (contents (inputFifo state)))
                 \<and> frame_loop sess shape0 state = frame_loop sess shape0 state'
                 \<and> (\<exists>final. frame_loop sess shape0 state' = Some final
                       \<and> available (inputFifo final) < modelFrameSize)"
    by (rule frame_bypass(1)[OF assms r])
next
  assume "isReady den \<and> processBlock ip env den buf mix = Some (den', buf')"
  then have "session den' = session den"
    using processBlock_keeps_session[of den ip env buf mix den' buf'] by simp
  then show "isReady den'" "session den' = session den"
    using \<open>isReady den \<and> processBlock ip env den buf mix = Some (den', buf')\<close>
    by (simp_all add: isReady_def)
qed

theorem failed_inference_bypasses_frame_witness:
  "channel_prepared bypass_example
   \<and> modelFrameSize \<le> available (inputFifo bypass_example)
   \<and> runModel (Some throwing_session) [1, 480]
        (take (nat modelFrameSize) (contents (inputFifo bypass_example)))
        (frameOut bypass_example) modelFrameSize = Some (False, frameOut bypass_example)
   \<and> (\<exists>state'. frame_step (Some throwing_session) [1, 480] bypass_example = Some state'
          \<and> frameIn state' = take (nat modelFrameSize) (contents (inputFifo bypass_example))
          \<and> available (outputFifo state') = 480
          \<and> contents (outputFifo state') =
               take (nat modelFrameSize) (contents (inputFifo bypass_example)))"
proof -
  have a: "channel_prepared bypass_example"
    by (simp add: bypass_example_def channel_prepared_def rb_inv_def modelFrameSize_def)
  have b: "modelFrameSize \<le> available (inputFifo bypass_example)"
    by (simp add: bypass_example_def available_def modelFrameSize_def)
  note t = failed_inference_bypasses_frame[OF a b, of "Some throwing_session" "[1, 480]"
             "frameOut bypass_example"]
  have c: "runModel (Some throwing_session) [1, 480]
        (take (nat modelFrameSize) (contents (inputFifo bypass_example)))
        (frameOut bypass_example) modelFrameSize = Some (False, frameOut bypass_example)"
    using t[THEN conjunct2, THEN conjunct1] by (simp add: throwing_session_def)
  have d: "contents (outputFifo bypass_example) = []"
    by (simp add: bypass_example_def contents_def)
  have e: "capacity (outputFifo bypass_example) = 15360"
    "available (outputFifo bypass_example) = 0"
    by (simp_all add: bypass_example_def available_def)
  have f: "length (take (nat modelFrameSize) (contents (inputFifo bypass_example))) = 480"
    by (simp add: bypass_example_def modelFrameSize_def)
  from t[THEN conjunct1] c
  obtain state' where s: "frame_step (Some throwing_session) [1, 480] bypass_example = Some state'"
    "frameIn state' = take (nat modelFrameSize) (contents (inputFifo bypass_example))"
    "available (outputFifo state') =
       min (capacity (outputFifo bypass_example))
           (available (outputFifo bypass_example) + modelFrameSize)"
    "contents (outputFifo state') =
       lastn (nat (available (outputFifo state')))
         (contents (outputFifo bypass_example)
          @ take (nat modelFrameSize) (contents (inputFifo bypass_example)))"
    by blast
  have g: "available (outputFifo state') = 480"
    using s(3) unfolding e by (simp add: modelFrameSize_def)
  have "contents (outputFifo state') =
          take (nat modelFrameSize) (contents (inputFifo bypass_example))"
    using s(4) f unfolding d g by (simp add: lastn_all)
  with s(1,2) g a b c show ?thesis by blast
qed

section \<open>Sizes of the scratch arrays\<close>

text \<open>What \<^verbatim>\<open>push\<close> keeps whenever it returns, whatever the source array is.\<close>

lemma push_loop_partial:
  assumes "push_loop rb0 data0 count0 remaining0 = Some rb0'"
  shows "0 < capacity rb0 \<and> 0 \<le> writeIndex rb0 \<and> writeIndex rb0 < capacity rb0 \<longrightarrow>
         capacity rb0' = capacity rb0 \<and> length (buffer rb0') = length (buffer rb0)
         \<and> readIndex rb0' = readIndex rb0 \<and> availableSamples rb0' = availableSamples rb0
         \<and> writeIndex rb0' = (writeIndex rb0 + max 0 remaining0) mod capacity rb0"
proof (rule push_loop.raw_induct[where P = "\<lambda>rb data count remaining rb'.
         0 < capacity rb \<and> 0 \<le> writeIndex rb \<and> writeIndex rb < capacity rb \<longrightarrow>
         capacity rb' = capacity rb \<and> length (buffer rb') = length (buffer rb)
         \<and> readIndex rb' = readIndex rb \<and> availableSamples rb' = availableSamples rb
         \<and> writeIndex rb' = (writeIndex rb + max 0 remaining) mod capacity rb", OF _ assms],
       goal_cases)
  case (1 loop rb data count remaining rb')
  show ?case
  proof (intro impI)
    assume a: "0 < capacity rb \<and> 0 \<le> writeIndex rb \<and> writeIndex rb < capacity rb"
    show "capacity rb' = capacity rb \<and> length (buffer rb') = length (buffer rb)
         \<and> readIndex rb' = readIndex rb \<and> availableSamples rb' = availableSamples rb
         \<and> writeIndex rb' = (writeIndex rb + max 0 remaining) mod capacity rb"
    proof (cases "0 < remaining")
      case False
      then have "rb' = rb" using 1(2) by simp
      then show ?thesis using a False by (simp add: max_def mod_pos_pos_trivial)
    next
      case True
      define toCopy where "toCopy = min (capacity rb - writeIndex rb) remaining"
      obtain b where m: "memcpy (buffer rb) (writeIndex rb) data (count - remaining) toCopy = Some b"
        using 1(2) True by (auto simp: Let_def toCopy_def split: option.splits)
      have tc: "0 \<le> toCopy" "toCopy \<le> remaining"
        using m by (auto simp: memcpy_def toCopy_def split: if_splits)
      have cr: "cpp_rem (writeIndex rb + toCopy) (capacity rb)
                  = Some ((writeIndex rb + toCopy) mod capacity rb)"
        using a tc by (intro cpp_rem_nonneg) auto
      let ?rb1 = "rb\<lparr>buffer := b, writeIndex := (writeIndex rb + toCopy) mod capacity rb\<rparr>"
      have rec: "loop ?rb1 data count (remaining - toCopy) = Some rb'"
        using 1(2) True m cr by (simp add: Let_def toCopy_def[symmetric])
      have a1: "0 < capacity ?rb1 \<and> 0 \<le> writeIndex ?rb1 \<and> writeIndex ?rb1 < capacity ?rb1"
        using a by simp
      from 1(1)[OF rec] a1
      have r: "capacity rb' = capacity rb" "length (buffer rb') = length b"
        "readIndex rb' = readIndex rb" "availableSamples rb' = availableSamples rb"
        "writeIndex rb' = ((writeIndex rb + toCopy) mod capacity rb + max 0 (remaining - toCopy))
                            mod capacity rb"
        by simp_all
      have "((writeIndex rb + toCopy) mod capacity rb + max 0 (remaining - toCopy)) mod capacity rb
              = (writeIndex rb + toCopy + (remaining - toCopy)) mod capacity rb"
        using tc by (simp add: max_def mod_simps)
      also have "writeIndex rb + toCopy + (remaining - toCopy) = writeIndex rb + max 0 remaining"
        using True by simp
      finally show ?thesis using r memcpy_length[OF m] by simp
    qed
  qed
qed

lemma push_partial:
  assumes "rb_inv rb" "push rb data count = Some rb'"
  shows "rb_inv rb'" and "capacity rb' = capacity rb"
proof -
  define cap a r where "cap = capacity rb" and "a = availableSamples rb" and "r = readIndex rb"
  have i: "1 \<le> cap" "length (buffer rb) = nat cap" "0 \<le> r" "r < cap" "0 \<le> a" "a \<le> cap"
    and wi: "writeIndex rb = (r + a) mod cap"
    using assms(1) by (simp_all add: rb_inv_def cap_def a_def r_def)
  have both: "rb_inv rb' \<and> capacity rb' = capacity rb"
  proof (cases "count \<le> 0")
    case True
    then show ?thesis using assms by (simp add: push_def)
  next
    case False
    define c where "c = (if capacity rb < count then capacity rb else count)"
    have c: "0 < c" "c \<le> cap" using False i by (auto simp: c_def cap_def)
    obtain rb1 where l: "push_loop rb data c c = Some rb1"
      using assms(2) False by (auto simp: push_def Let_def c_def split: option.splits)
    have w: "0 < capacity rb \<and> 0 \<le> writeIndex rb \<and> writeIndex rb < capacity rb"
      using i wi by (simp add: cap_def)
    from push_loop_partial[OF l] w
    have r1: "capacity rb1 = cap" "length (buffer rb1) = nat cap" "readIndex rb1 = r"
      "availableSamples rb1 = a" "writeIndex rb1 = ((r + a) mod cap + c) mod cap"
      using c i wi by (simp_all add: cap_def a_def r_def max_def)
    define a' where "a' = min cap (a + c)"
    define w' where "w' = (r + a + c) mod cap"
    have w'eq: "writeIndex rb1 = w'" unfolding r1 w'_def by (simp add: mod_simps)
    define rb2 where "rb2 = rb1\<lparr>availableSamples := a'\<rparr>"
    have rb2: "rb2 = rb1\<lparr>availableSamples := min (capacity rb1) (availableSamples rb1 + c)\<rparr>"
      unfolding rb2_def a'_def r1 ..
    have "push rb data count = Some (if availableSamples rb2 = capacity rb2
                        then rb2\<lparr>readIndex := writeIndex rb2\<rparr> else rb2)"
      using False l unfolding rb2 by (simp add: push_def Let_def c_def[symmetric])
    then have rb': "rb' = (if a' = cap then rb2\<lparr>readIndex := w'\<rparr> else rb2)"
      using assms(2) r1(1) w'eq by (simp add: rb2_def)
    have w'r: "0 \<le> w'" "w' < cap" using i by (simp_all add: w'_def)
    have a'r: "0 \<le> a'" "a' \<le> cap" using i c by (simp_all add: a'_def)
    have sel: "capacity rb' = cap" "length (buffer rb') = nat cap" "availableSamples rb' = a'"
      "writeIndex rb' = w'" "readIndex rb' = (if a' = cap then w' else r)"
      using r1 w'eq by (simp_all add: rb' rb2_def)
    have "w' = ((if a' = cap then w' else r) + a') mod cap"
    proof (cases "a' = cap")
      case True
      then show ?thesis using w'r by simp
    next
      case False
      then have e: "a' = a + c" unfolding a'_def by linarith
      show ?thesis using False unfolding e w'_def by (simp add: add.assoc)
    qed
    then show ?thesis
      unfolding rb_inv_def sel using w'r a'r i by (auto simp: cap_def)
  qed
  then show "rb_inv rb'" and "capacity rb' = capacity rb" by simp_all
qed


lemma interp_write_length: "interp_write dst outs = Some d \<Longrightarrow> length d = length dst"
  by (auto simp: interp_write_def split: if_splits)

lemma length_vec_resize [simp]: "length (vec_resize v n) = n"
  by (simp add: vec_resize_def)

lemma processChannel_sizes:
  assumes prep: "channel_prepared state"
    and pc: "processChannel ip den state mem inP outP numSamples mix = Some (state', mem')"
  shows "channel_prepared state'"
    and "length (tempIn state') =
           max (length (tempIn state)) (nat \<lceil>real_of_int numSamples / resampleInRatio den\<rceil>)"
    and "length (tempOut state') =
           max (length (tempOut state)) (nat \<lceil>resampleOutRatio den * real_of_int numSamples\<rceil>)"
proof -
  define target where "target = \<lceil>real_of_int numSamples / resampleInRatio den\<rceil>"
  define tempIn1 where "tempIn1 = (if int (length (tempIn state)) < target
                       then vec_resize (tempIn state) (nat target) else tempIn state)"
  define required where "required = \<lceil>resampleOutRatio den * real_of_int numSamples\<rceil>"
  obtain rsIn outs produced where ipr:
    "interp_process ip (resamplerIn state) (resampleInRatio den) (mem ! inP) target
       = (rsIn, outs, produced)"
    by (cases "interp_process ip (resamplerIn state) (resampleInRatio den) (mem ! inP) target")
  have g: "\<not> (resampleInRatio den = 0 \<or> \<not> inP < length mem \<or> \<not> outP < length mem)"
    using pc by (auto simp: processChannel_def split: if_splits)
  have pc1: "(case interp_write tempIn1 outs of
             None \<Rightarrow> None
           | Some tempIn2 \<Rightarrow>
        (case push (inputFifo state) tempIn2 produced of
             None \<Rightarrow> None
           | Some fifoIn \<Rightarrow>
        (case frame_loop (session den) (modelInputShape den)
                (state\<lparr>resamplerIn := rsIn, tempIn := tempIn2, inputFifo := fifoIn\<rparr>) of
             None \<Rightarrow> None
           | Some state2 \<Rightarrow>
        let requiredModelSamples = \<lceil>resampleOutRatio den * real_of_int numSamples\<rceil>;
            tempOut1 = (if int (length (tempOut state2)) < requiredModelSamples
                        then vec_resize (tempOut state2) (nat requiredModelSamples)
                        else tempOut state2)
        in case pop (outputFifo state2) tempOut1 requiredModelSamples True of
             None \<Rightarrow> None
           | Some (fifoOut, tempOut2, popped) \<Rightarrow>
        let (rsOut, outs2, used) =
               interp_process ip (resamplerOut state2) (resampleOutRatio den) tempOut2 numSamples
        in case interp_write (mem ! outP) outs2 of
             None \<Rightarrow> None
           | Some out1 \<Rightarrow>
        let mem1 = mem[outP := out1];
            state3 = state2\<lparr>outputFifo := fifoOut, tempOut := tempOut2, resamplerOut := rsOut\<rparr>
        in if mix < 1
           then (case mix_loop mem1 inP outP (1 - mix) mix 0 numSamples of
                   None \<Rightarrow> None
                 | Some mem2 \<Rightarrow> Some (state3, mem2))
           else Some (state3, mem1)))) = Some (state', mem')"
    using pc g ipr
    by (simp add: processChannel_def Let_def target_def[symmetric] tempIn1_def[symmetric])
  obtain tempIn2 where iw: "interp_write tempIn1 outs = Some tempIn2"
    using pc1 by (cases "interp_write tempIn1 outs") auto
  obtain fifoIn where pu: "push (inputFifo state) tempIn2 produced = Some fifoIn"
    using pc1 iw by (cases "push (inputFifo state) tempIn2 produced") auto
  let ?s1 = "state\<lparr>resamplerIn := rsIn, tempIn := tempIn2, inputFifo := fifoIn\<rparr>"
  have p: "rb_inv (inputFifo state)" "rb_inv (outputFifo state)"
      "capacity (inputFifo state) = modelFrameSize * 32"
      "capacity (outputFifo state) = modelFrameSize * 32"
      "length (frameIn state) = nat modelFrameSize"
      "length (frameOut state) = nat modelFrameSize"
    using prep by (simp_all add: channel_prepared_def)
  have prep1: "channel_prepared ?s1"
    using push_partial[OF p(1) pu] p by (simp add: channel_prepared_def)
  obtain state2 where fl: "frame_loop (session den) (modelInputShape den) ?s1 = Some state2"
    and prep2: "channel_prepared state2"
    and t2: "tempIn state2 = tempIn2" "tempOut state2 = tempOut state"
    using frame_loop_total[OF prep1, of "session den" "modelInputShape den"] by auto
  define tempOut1 where "tempOut1 = (if int (length (tempOut state2)) < required
                        then vec_resize (tempOut state2) (nat required)
                        else tempOut state2)"
  have pc2: "(case pop (outputFifo state2) tempOut1 required True of
             None \<Rightarrow> None
           | Some (fifoOut, tempOut2, popped) \<Rightarrow>
        let (rsOut, outs2, used) =
               interp_process ip (resamplerOut state2) (resampleOutRatio den) tempOut2 numSamples
        in case interp_write (mem ! outP) outs2 of
             None \<Rightarrow> None
           | Some out1 \<Rightarrow>
        let mem1 = mem[outP := out1];
            state3 = state2\<lparr>outputFifo := fifoOut, tempOut := tempOut2, resamplerOut := rsOut\<rparr>
        in if mix < 1
           then (case mix_loop mem1 inP outP (1 - mix) mix 0 numSamples of
                   None \<Rightarrow> None
                 | Some mem2 \<Rightarrow> Some (state3, mem2))
           else Some (state3, mem1)) = Some (state', mem')"
    using pc1 iw pu fl
    by (simp add: Let_def required_def[symmetric] tempOut1_def[symmetric])
  obtain fifoOut tempOut2 popped where
    po: "pop (outputFifo state2) tempOut1 required True = Some (fifoOut, tempOut2, popped)"
    using pc2 by (cases "pop (outputFifo state2) tempOut1 required True") auto
  obtain rsOut outs2 used where ipr2:
    "interp_process ip (resamplerOut state2) (resampleOutRatio den) tempOut2 numSamples
       = (rsOut, outs2, used)"
    by (cases "interp_process ip (resamplerOut state2) (resampleOutRatio den) tempOut2 numSamples")
  have st': "state' = state2\<lparr>outputFifo := fifoOut, tempOut := tempOut2, resamplerOut := rsOut\<rparr>"
    using pc2 po ipr2 by (auto simp: Let_def split: option.splits if_splits)
  have p2: "rb_inv (inputFifo state2)" "rb_inv (outputFifo state2)"
      "capacity (inputFifo state2) = modelFrameSize * 32"
      "capacity (outputFifo state2) = modelFrameSize * 32"
      "length (frameIn state2) = nat modelFrameSize"
      "length (frameOut state2) = nat modelFrameSize"
    using prep2 by (simp_all add: channel_prepared_def)
  have l1: "required \<le> int (length tempOut1)" by (simp add: tempOut1_def)
  have fo: "rb_inv fifoOut \<and> capacity fifoOut = capacity (outputFifo state2)
            \<and> length tempOut2 = length tempOut1"
  proof (cases "0 < required")
    case True
    show ?thesis using pop_contents(1,2,6)[OF p2(2) True l1 po] by simp
  next
    case False
    then show ?thesis using po p2 by (simp add: pop_def)
  qed
  show "channel_prepared state'"
    using fo p2 by (simp add: st' channel_prepared_def)
  show "length (tempIn state') =
           max (length (tempIn state)) (nat \<lceil>real_of_int numSamples / resampleInRatio den\<rceil>)"
    using interp_write_length[OF iw] t2
    unfolding target_def[symmetric] by (simp add: st' tempIn1_def) 
  show "length (tempOut state') =
           max (length (tempOut state)) (nat \<lceil>resampleOutRatio den * real_of_int numSamples\<rceil>)"
    using fo t2 unfolding required_def[symmetric] by (simp add: st' tempOut1_def)
qed


lemma grown_refl: "channel_prepared s \<Longrightarrow> grown tin tout s s"
  by (simp add: grown_def)

lemma grown_trans: "grown tin tout s s1 \<Longrightarrow> grown tin tout s1 s2 \<Longrightarrow> grown tin tout s s2"
  by (auto simp: grown_def)

lemma channel_loop_sizes:
  "channel_loop ip den mem numSamples mix ch n = Some (den', mem') \<Longrightarrow>
   list_all channel_prepared (channels den) \<Longrightarrow>
   length (channels den') = length (channels den)
   \<and> (\<forall>j < length (channels den).
         grown (nat \<lceil>real_of_int numSamples / resampleInRatio den\<rceil>)
               (nat \<lceil>resampleOutRatio den * real_of_int numSamples\<rceil>)
               (channels den ! j) (channels den' ! j))"
proof (induction ip den mem numSamples mix ch n rule: channel_loop.induct)
  case (1 ip den mem numSamples mix ch n)
  let ?tin = "nat \<lceil>real_of_int numSamples / resampleInRatio den\<rceil>"
  let ?tout = "nat \<lceil>resampleOutRatio den * real_of_int numSamples\<rceil>"
  have allp: "\<And>j. j < length (channels den) \<Longrightarrow> channel_prepared (channels den ! j)"
    using "1.prems"(2) by (simp add: list_all_length)
  show ?case
  proof (cases "ch < n")
    case False
    then have "den' = den" using "1.prems" by simp
    then show ?thesis using allp by (simp add: grown_refl)
  next
    case True
    then have r: "\<not> (ch < 0 \<or> length (channels den) \<le> nat ch)"
      using "1.prems" by (auto split: if_splits)
    then obtain st mem1 where
      pc: "processChannel ip den (channels den ! nat ch) mem (nat ch) (nat ch) numSamples mix
             = Some (st, mem1)"
      using "1.prems" True by (auto split: option.splits)
    let ?den1 = "den\<lparr>channels := (channels den)[nat ch := st]\<rparr>"
    have lp: "channel_loop ip ?den1 mem1 numSamples mix (ch + 1) n = Some (den', mem')"
      using "1.prems" True r pc by simp
    have pch: "channel_prepared (channels den ! nat ch)" using allp r by simp
    note sz = processChannel_sizes[OF pch pc]
    have g1: "grown ?tin ?tout (channels den ! nat ch) st"
      using sz by (simp add: grown_def)
    have all1: "list_all channel_prepared (channels ?den1)"
      using allp sz(1) r by (simp add: list_all_length nth_list_update)
    from "1.IH"[OF True r pc refl lp all1]
    have len: "length (channels den') = length (channels den)"
      and gr: "\<And>j. j < length (channels den) \<Longrightarrow>
                 grown ?tin ?tout (channels ?den1 ! j) (channels den' ! j)"
      by simp_all
    have "grown ?tin ?tout (channels den ! j) (channels den' ! j)"
      if j: "j < length (channels den)" for j
    proof (cases "j = nat ch")
      case True
      then have "channels ?den1 ! j = st" using j by simp
      then show ?thesis using gr[OF j] g1 True grown_trans by metis
    next
      case False
      then have "channels ?den1 ! j = channels den ! j" by simp
      then show ?thesis using gr[OF j] by simp
    qed
    then show ?thesis using len by simp
  qed
qed

lemma tryCreate_config:
  "audio_config (snd (tryCreateSessionForProvider env den file provider)) = audio_config den"
  by (simp add: tryCreateSessionForProvider_def audio_config_def Let_def split: option.splits)

lemma try_providers_config:
  "audio_config (snd (try_providers env den file ps)) = audio_config den"
proof (induction ps arbitrary: den)
  case Nil
  then show ?case by simp
next
  case (Cons p ps)
  obtain ok den1 where t: "tryCreateSessionForProvider env den file p = (ok, den1)"
    by (cases "tryCreateSessionForProvider env den file p")
  then have "audio_config den1 = audio_config den"
    using tryCreate_config[of env den "file" p] by simp
  then show ?case using Cons[of den1] Cons[of den] t by (cases ok) auto
qed

lemma try_candidates_config:
  "audio_config (snd (try_candidates env den ps cs)) = audio_config den"
proof (induction cs arbitrary: den)
  case Nil
  then show ?case by simp
next
  case (Cons c cs)
  obtain ok den1 where t: "try_providers env den c ps = (ok, den1)"
    by (cases "try_providers env den c ps")
  then have "audio_config den1 = audio_config den"
    using try_providers_config[of env den c ps] by simp
  then show ?case using Cons[of den1] Cons[of den] t
    by (cases ok) (auto simp: audio_config_def)
qed

lemma load_config:
  "audio_config (snd (loadDefaultModelIfNeeded env den)) = audio_config den"
proof -
  let ?ps = "getProviderFallbackOrder den"
  obtain ok den1 where f: "(if existsAsFile env (modelPath den)
                 then try_providers env den (modelPath den) ?ps else (False, den)) = (ok, den1)"
    by (cases "if existsAsFile env (modelPath den)
                 then try_providers env den (modelPath den) ?ps else (False, den)")
  have c1: "audio_config den1 = audio_config den"
    using f try_providers_config[of env den "modelPath den" ?ps] by (auto split: if_splits)
  show ?thesis
  proof (cases "session den \<noteq> None")
    case True
    then show ?thesis by (simp add: loadDefaultModelIfNeeded_def)
  next
    case False
    then have "loadDefaultModelIfNeeded env den =
             (if ok then (True, den1) else try_candidates env den1 ?ps (getModelCandidates env den1))"
      using f by (simp add: loadDefaultModelIfNeeded_def Let_def)
    then show ?thesis using c1 try_candidates_config[of env den1 ?ps] by simp
  qed
qed

lemma processBlock_sizes:
  assumes "list_all channel_prepared (channels den)"
    and "processBlock ip env den buf mix = Some (den', buf')"
  shows "length (channels den') = length (channels den)
         \<and> (\<forall>j < length (channels den).
               grown (nat \<lceil>real_of_int (getNumSamples buf) / resampleInRatio den\<rceil>)
                     (nat \<lceil>resampleOutRatio den * real_of_int (getNumSamples buf)\<rceil>)
                     (channels den ! j) (channels den' ! j))"
proof -
  obtain ok den1 where l: "loadDefaultModelIfNeeded env den = (ok, den1)"
    by (cases "loadDefaultModelIfNeeded env den")
  have c: "enabled den1 = enabled den" "resampleInRatio den1 = resampleInRatio den"
    "resampleOutRatio den1 = resampleOutRatio den" "channels den1 = channels den"
    using load_config[of env den] l by (simp_all add: audio_config_def)
  have allp: "\<And>j. j < length (channels den) \<Longrightarrow> channel_prepared (channels den ! j)"
    using assms(1) by (simp add: list_all_length)
  let ?loop = "channel_loop ip den1 (bufChannels buf) (getNumSamples buf) (jlimit 0 1 mix) 0
         (min (getNumChannels buf) (int (length (channels den1))))"
  have pb: "processBlock ip env den buf mix =
          (if \<not> enabled den then Some (den, buf)
           else if mix \<le> 0 then Some (den, buf)
           else if \<not> ok then Some (den1, buf)
           else case ?loop of None \<Rightarrow> None
                | Some (den'', mem) \<Rightarrow> Some (den'', buf\<lparr>bufChannels := mem\<rparr>))"
    by (cases ok) (simp_all add: processBlock_def l Let_def)
  consider "den' = den" | "den' = den1" | mem2 where "?loop = Some (den', mem2)"
  proof (cases "\<not> enabled den \<or> mix \<le> 0 \<or> \<not> ok")
    case True
    then have "den' = den \<or> den' = den1" using assms(2) unfolding pb by (auto split: if_splits)
    then show ?thesis using that by blast
  next
    case False
    then have "(case ?loop of None \<Rightarrow> None
                | Some (den'', mem) \<Rightarrow> Some (den'', buf\<lparr>bufChannels := mem\<rparr>)) = Some (den', buf')"
      using assms(2) unfolding pb by simp
    then obtain mem2 where "?loop = Some (den', mem2)" by (cases ?loop) auto
    then show ?thesis using that by blast
  qed
  then show ?thesis
  proof cases
    case 1
    then show ?thesis using allp by (simp add: grown_refl)
  next
    case 2
    then show ?thesis using allp c by (simp add: grown_refl)
  next
    case 3
    have "list_all channel_prepared (channels den1)" using assms(1) c by simp
    from channel_loop_sizes[OF 3 this] show ?thesis using c by simp
  qed
qed

lemma capacity_resize: "capacity (resize rb n) = max n 1"
  by (simp add: resize_def Let_def)

lemma prepareChannel_prepared: "channel_prepared (prepareChannel ip channel)"
  by (simp add: prepareChannel_def channel_prepared_def Let_def resize_inv capacity_resize
      modelFrameSize_def)

lemma prepare_prepared:
  assumes "prepare ip env den sampleRate n maxBlockSize = Some den1"
  shows "list_all channel_prepared (channels den1)"
proof -
  define xs where "xs = take (nat n) (channels den)
                         @ replicate (nat n - length (channels den)) (ChannelState_init ip)"
  define den0 where "den0 = den\<lparr>hostSampleRate := sampleRate,
                       numChannels := n,
                       maxBlock := maxBlockSize,
                       resampleInRatio := sampleRate / modelSampleRate,
                       resampleOutRatio := modelSampleRate / sampleRate,
                       channels := map (prepareChannel ip) xs\<rparr>"
  have "den1 = snd (loadDefaultModelIfNeeded env den0)"
    using assms unfolding prepare_def Let_def den0_def xs_def by (simp split: if_splits)
  then have "channels den1 = channels den0"
    using load_config[of env den0] by (simp add: audio_config_def)
  then have "channels den1 = map (prepareChannel ip) xs" by (simp add: den0_def)
  then show ?thesis by (auto simp: list_all_iff prepareChannel_prepared)
qed

text \<open>
  Claim C8, as amended. On a denoiser whose channels are as \<^verbatim>\<open>prepare\<close> leaves them (lemma
  \<open>prepare_prepared\<close>), every \<^verbatim>\<open>processBlock\<close> call that returns keeps them so: for every
  channel the sizes of \<^verbatim>\<open>frameIn\<close> and \<^verbatim>\<open>frameOut\<close> and the capacities and store sizes of
  both FIFOs are unchanged, for every block size and sample rate. The arrays \<^verbatim>\<open>tempIn\<close>
  and \<^verbatim>\<open>tempOut\<close> are never shrunk and grow at most to \<open>\<lceil>numSamples / resampleInRatio\<rceil>\<close>
  and \<open>\<lceil>resampleOutRatio * numSamples\<rceil>\<close>: \<^verbatim>\<open>processChannel\<close> resizes them on demand, so
  they are unchanged once they are large enough.
\<close>

theorem processBlock_keeps_prepared_sizes:
  assumes "list_all channel_prepared (channels den)"
    and "processBlock ip env den buf mix = Some (den', buf')"
  shows "length (channels den') = length (channels den)
     \<and> (\<forall>j < length (channels den).
          channel_prepared (channels den' ! j)
          \<and> length (frameIn (channels den' ! j)) = length (frameIn (channels den ! j))
          \<and> length (frameOut (channels den' ! j)) = length (frameOut (channels den ! j))
          \<and> capacity (inputFifo (channels den' ! j)) = capacity (inputFifo (channels den ! j))
          \<and> capacity (outputFifo (channels den' ! j)) = capacity (outputFifo (channels den ! j))
          \<and> length (buffer (inputFifo (channels den' ! j)))
              = length (buffer (inputFifo (channels den ! j)))
          \<and> length (buffer (outputFifo (channels den' ! j)))
              = length (buffer (outputFifo (channels den ! j)))
          \<and> length (tempIn (channels den ! j)) \<le> length (tempIn (channels den' ! j))
          \<and> length (tempIn (channels den' ! j))
              \<le> max (length (tempIn (channels den ! j)))
                     (nat \<lceil>real_of_int (getNumSamples buf) / resampleInRatio den\<rceil>)
          \<and> length (tempOut (channels den ! j)) \<le> length (tempOut (channels den' ! j))
          \<and> length (tempOut (channels den' ! j))
              \<le> max (length (tempOut (channels den ! j)))
                     (nat \<lceil>resampleOutRatio den * real_of_int (getNumSamples buf)\<rceil>))"
proof -
  note s = processBlock_sizes[OF assms]
  have p: "channel_prepared (channels den ! j)" if "j < length (channels den)" for j
    using assms(1) that by (simp add: list_all_length)
  have g: "grown (nat \<lceil>real_of_int (getNumSamples buf) / resampleInRatio den\<rceil>)
                 (nat \<lceil>resampleOutRatio den * real_of_int (getNumSamples buf)\<rceil>)
                 (channels den ! j) (channels den' ! j)" if "j < length (channels den)" for j
    using s that by simp
  show ?thesis
  proof (intro conjI allI impI)
    show "length (channels den') = length (channels den)" using s by simp
  next
    fix j assume j: "j < length (channels den)"
    show "channel_prepared (channels den' ! j)" using g[OF j] by (simp add: grown_def)
    then show "length (frameIn (channels den' ! j)) = length (frameIn (channels den ! j))"
      "length (frameOut (channels den' ! j)) = length (frameOut (channels den ! j))"
      "capacity (inputFifo (channels den' ! j)) = capacity (inputFifo (channels den ! j))"
      "capacity (outputFifo (channels den' ! j)) = capacity (outputFifo (channels den ! j))"
      "length (buffer (inputFifo (channels den' ! j)))
              = length (buffer (inputFifo (channels den ! j)))"
      "length (buffer (outputFifo (channels den' ! j)))
              = length (buffer (outputFifo (channels den ! j)))"
      using p[OF j] by (simp_all add: channel_prepared_def rb_inv_def)
    show "length (tempIn (channels den ! j)) \<le> length (tempIn (channels den' ! j))"
      "length (tempIn (channels den' ! j))
              \<le> max (length (tempIn (channels den ! j)))
                     (nat \<lceil>real_of_int (getNumSamples buf) / resampleInRatio den\<rceil>)"
      "length (tempOut (channels den ! j)) \<le> length (tempOut (channels den' ! j))"
      "length (tempOut (channels den' ! j))
              \<le> max (length (tempOut (channels den ! j)))
                     (nat \<lceil>resampleOutRatio den * real_of_int (getNumSamples buf)\<rceil>)"
      using g[OF j] by (simp_all add: grown_def)
  qed
qed

subsection \<open>A first block after \<^verbatim>\<open>prepare\<close>\<close>

text \<open>The denoiser prepared at 48 kHz with one channel and a loaded session, enabled,
  processes a block of one sample of value 1.\<close>

lemmas load_defs = loadDefaultModelIfNeeded_def getProviderFallbackOrder_def getModelCandidates_def
  tryCreateSessionForProvider_def isProviderUsable_def providerReady_def appendQnnProvider_def
  addByProvider_def addIfNotAlreadyThere_def appendUnique_def test_env_def example_env_def

lemmas prep_defs = prepare_def setEnabled_def OnnxDenoiser_init_def prepareChannel_def
      ChannelState_init_def hold_interp_def modelFrameSize_def modelSampleRate_def resize_def
      RingBuffer_init_def vec_resize_def Let_def

lemmas run_defs = processBlock_def getNumSamples_def getNumChannels_def jlimit_def
  processChannel_def interp_write_def push_def pop_def push_loop.simps pop_loop.simps
  memcpy_def fill_zero_def cpp_rem_def frame_loop.simps available_def mix_loop.simps

lemma example_den_eq:
  "example_den =
     \<lparr>hostSampleRate = 48000, numChannels = 1, maxBlock = 512,
        enabled = True, resampleInRatio = 1, resampleOutRatio = 1,
        modelPath = ''/opt/vrs/models/rnnoise_48k_olive_qnn.onnx'',
        preferredProvider = autoSelect, activeProvider = cpu,
        allowFallback = True, dmlDeviceId = 0, qnnBackendPath = [],
        channels =
          [\<lparr>resamplerIn = (), resamplerOut = (),
              inputFifo =
                \<lparr>buffer = replicate 15360 0, capacity = 15360, readIndex = 0,
                   writeIndex = 0, availableSamples = 0\<rparr>,
              outputFifo =
                \<lparr>buffer = replicate 15360 0, capacity = 15360, readIndex = 0,
                   writeIndex = 0, availableSamples = 0\<rparr>,
              tempIn = [], tempOut = [], frameIn = replicate 480 0,
              frameOut = replicate 480 0\<rparr>],
        session = Some identity_session, modelInputShape = [1, 480]\<rparr>"
  unfolding example_den_def by (simp add: prep_defs load_defs)

lemma example_run:
  "0 < mix \<Longrightarrow> map_option (\<lambda>r. (map (\<lambda>s. length (tempIn s)) (channels (fst r)), bufChannels (snd r)))
     (processBlock hold_interp example_env example_den example_buf mix) = Some ([1], [[0]])"
  unfolding example_den_eq example_buf_def
  by (simp add: run_defs load_defs prep_defs)


lemma example_result:
  "0 < mix \<Longrightarrow> processBlock hold_interp example_env example_den example_buf mix
     = Some (example_after, \<lparr>bufNumSamples = 1, bufChannels = [[0]]\<rparr>)"
  unfolding example_after_def example_den_eq example_buf_def
  by (simp add: run_defs load_defs prep_defs)

text \<open>
  Claim C8 as stated fails: \<^verbatim>\<open>prepare\<close> clears \<^verbatim>\<open>tempIn\<close>, and the first \<^verbatim>\<open>processBlock\<close>
  call after it resizes \<^verbatim>\<open>tempIn\<close> from 0 to 1 element.
\<close>

theorem scratch_arrays_grow_counterexample:
  "map (\<lambda>s. length (tempIn s)) (channels example_den) = [0]
   \<and> map_option (\<lambda>r. map (\<lambda>s. length (tempIn s)) (channels (fst r)))
        (processBlock hold_interp example_env example_den example_buf 1) = Some [1]"
  by (simp add: example_result) (simp add: example_after_def example_den_eq)

theorem processBlock_keeps_prepared_sizes_witness:
  "list_all channel_prepared (channels example_den)
   \<and> processBlock hold_interp example_env example_den example_buf 1
       = Some (example_after, \<lparr>bufNumSamples = 1, bufChannels = [[0]]\<rparr>)
   \<and> length (channels example_after) = length (channels example_den)
   \<and> channel_prepared (channels example_after ! 0)
   \<and> capacity (inputFifo (channels example_after ! 0))
       = capacity (inputFifo (channels example_den ! 0))
   \<and> length (tempIn (channels example_after ! 0))
       \<le> max (length (tempIn (channels example_den ! 0)))
             (nat \<lceil>real_of_int (getNumSamples example_buf) / resampleInRatio example_den\<rceil>)"
proof -
  have "\<exists>d. prepare hold_interp example_env OnnxDenoiser_init 48000 1 512 = Some d"
    by (simp add: prepare_def)
  then obtain d where d: "prepare hold_interp example_env OnnxDenoiser_init 48000 1 512 = Some d"
    by blast
  have h1: "list_all channel_prepared (channels example_den)"
    using prepare_prepared[OF d] d by (simp add: example_den_def setEnabled_def)
  have h2: "processBlock hold_interp example_env example_den example_buf 1
       = Some (example_after, \<lparr>bufNumSamples = 1, bufChannels = [[0]]\<rparr>)"
    by (simp add: example_result)
  have l: "0 < length (channels example_den)" by (simp add: example_den_eq)
  from processBlock_keeps_prepared_sizes[OF h1 h2] l h1 h2 show ?thesis by simp
qed

section \<open>The dry/wet mix\<close>

text \<open>
  Claim C2 says that with \<open>0 < mix < 1\<close> each output sample is
  \<open>input[i] * (1 - mix) + wet[i] * mix\<close> with \<open>input[i]\<close> the dry host sample.
  \<^verbatim>\<open>processBlock\<close> passes the same channel array as input and output of \<^verbatim>\<open>processChannel\<close>,
  so the interpolator has overwritten the dry samples when the mix loop reads them. On the
  first block after \<^verbatim>\<open>prepare\<close> the dry sample is 1 and the wet sample is 0 (what
  \<^verbatim>\<open>processBlock\<close> returns with \<open>mix = 1\<close>, where the mix is skipped); with \<open>mix = 1/2\<close> the
  output is 0, where the claimed formula gives \<open>1/2\<close>.
\<close>

theorem dry_input_overwritten_before_mix:
  "bufChannels example_buf = [[1]]
   \<and> map_option (\<lambda>r. bufChannels (snd r))
        (processBlock hold_interp example_env example_den example_buf 1) = Some [[0]]
   \<and> map_option (\<lambda>r. bufChannels (snd r))
        (processBlock hold_interp example_env example_den example_buf (1 / 2)) = Some [[0]]
   \<and> (1 :: real) * (1 - 1 / 2) + 0 * (1 / 2) = 1 / 2"
  by (simp add: example_result) (simp add: example_buf_def)

text \<open>In general, when input and output are the same array the mix loop returns
  \<open>wet * dryMix + wet * mix\<close> for every wet sample it finds there.\<close>

lemma mix_loop_aliased:
  assumes "outP = inP" "inP < length mem" "0 \<le> i" "numSamples \<le> int (length (mem ! inP))"
  shows "\<exists>mem'. mix_loop mem inP outP dryMix mix i numSamples = Some mem'
           \<and> length mem' = length mem \<and> length (mem' ! inP) = length (mem ! inP)
           \<and> (\<forall>k < length (mem ! inP).
                 mem' ! inP ! k = (if i \<le> int k \<and> int k < numSamples
                                 then mem ! inP ! k * dryMix + mem ! inP ! k * mix
                                 else mem ! inP ! k))"
  using assms
proof (induction mem inP outP dryMix mix i numSamples rule: mix_loop.induct)
  case (1 mem inP outP dryMix mix i numSamples)
  note [simp] = \<open>outP = inP\<close>
  show ?case
  proof (cases "i < numSamples")
    case False
    then show ?thesis by (subst mix_loop.simps) simp
  next
    case True
    let ?v = "mem ! inP ! nat i * dryMix + mem ! inP ! nat i * mix"
    let ?mem1 = "mem[outP := (mem ! outP)[nat i := mem ! inP ! nat i * dryMix + mem ! outP ! nat i * mix]]"
    have g: "inP < length mem \<and> outP < length mem \<and> 0 \<le> i
            \<and> nat i < length (mem ! inP) \<and> nat i < length (mem ! outP)"
      using "1.prems" True by simp
    have m1: "?mem1 ! inP = (mem ! inP)[nat i := ?v]" "length ?mem1 = length mem"
      using "1.prems" by simp_all
    have pre: "inP < length ?mem1" "0 \<le> i + 1" "numSamples \<le> int (length (?mem1 ! inP))"
      using "1.prems" m1 by simp_all
    from "1.IH"[OF True g \<open>outP = inP\<close> pre]
    obtain mem' where r: "mix_loop ?mem1 inP outP dryMix mix (i + 1) numSamples = Some mem'"
      "length mem' = length ?mem1" "length (mem' ! inP) = length (?mem1 ! inP)"
      "\<And>k. k < length (?mem1 ! inP) \<Longrightarrow>
              mem' ! inP ! k = (if i + 1 \<le> int k \<and> int k < numSamples
                              then ?mem1 ! inP ! k * dryMix + ?mem1 ! inP ! k * mix
                              else ?mem1 ! inP ! k)"
      by blast
    have step: "mix_loop mem inP outP dryMix mix i numSamples = Some mem'"
      using True g r(1) by (subst mix_loop.simps) simp
    have "mem' ! inP ! k = (if i \<le> int k \<and> int k < numSamples
                                 then mem ! inP ! k * dryMix + mem ! inP ! k * mix
                                 else mem ! inP ! k)" if k: "k < length (mem ! inP)" for k
    proof (cases "k = nat i")
      case True
      then show ?thesis using r(4)[of k] k m1 g \<open>i < numSamples\<close> by simp
    next
      case False
      then have "?mem1 ! inP ! k = mem ! inP ! k" using m1 by simp
      moreover have "(i + 1 \<le> int k) = (i \<le> int k)" using False g by linarith
      ultimately show ?thesis using r(4)[of k] k m1 by simp
    qed
    then show ?thesis using step r(2,3) m1 by simp
  qed
qed

text \<open>With two distinct arrays the loop computes the dry/wet blend that
  \<^verbatim>\<open>processChannel\<close> is written for.\<close>

lemma mix_loop_distinct:
  assumes "outP \<noteq> inP" "inP < length mem" "outP < length mem" "0 \<le> i"
    "numSamples \<le> int (length (mem ! inP))" "numSamples \<le> int (length (mem ! outP))"
  shows "\<exists>mem'. mix_loop mem inP outP dryMix mix i numSamples = Some mem'
           \<and> length mem' = length mem \<and> mem' ! inP = mem ! inP
           \<and> length (mem' ! outP) = length (mem ! outP)
           \<and> (\<forall>k < length (mem ! outP).
                 mem' ! outP ! k = (if i \<le> int k \<and> int k < numSamples
                                 then mem ! inP ! k * dryMix + mem ! outP ! k * mix
                                 else mem ! outP ! k))"
  using assms
proof (induction mem inP outP dryMix mix i numSamples rule: mix_loop.induct)
  case (1 mem inP outP dryMix mix i numSamples)
  show ?case
  proof (cases "i < numSamples")
    case False
    then show ?thesis by (subst mix_loop.simps) simp
  next
    case True
    let ?v = "mem ! inP ! nat i * dryMix + mem ! outP ! nat i * mix"
    let ?mem1 = "mem[outP := (mem ! outP)[nat i := ?v]]"
    have g: "inP < length mem \<and> outP < length mem \<and> 0 \<le> i
            \<and> nat i < length (mem ! inP) \<and> nat i < length (mem ! outP)"
      using "1.prems" True by auto
    have m1: "?mem1 ! outP = (mem ! outP)[nat i := ?v]" "length ?mem1 = length mem"
      "?mem1 ! inP = mem ! inP"
      using "1.prems" by simp_all
    have pre: "inP < length ?mem1" "outP < length ?mem1" "0 \<le> i + 1"
      "numSamples \<le> int (length (?mem1 ! inP))" "numSamples \<le> int (length (?mem1 ! outP))"
      using "1.prems" m1 by simp_all
    from "1.IH"[OF True g \<open>outP \<noteq> inP\<close> pre]
    obtain mem' where r: "mix_loop ?mem1 inP outP dryMix mix (i + 1) numSamples = Some mem'"
      "length mem' = length ?mem1" "mem' ! inP = ?mem1 ! inP"
      "length (mem' ! outP) = length (?mem1 ! outP)"
      "\<And>k. k < length (?mem1 ! outP) \<Longrightarrow>
              mem' ! outP ! k = (if i + 1 \<le> int k \<and> int k < numSamples
                              then ?mem1 ! inP ! k * dryMix + ?mem1 ! outP ! k * mix
                              else ?mem1 ! outP ! k)"
      by blast
    have step: "mix_loop mem inP outP dryMix mix i numSamples = Some mem'"
      using True g r(1) by (subst mix_loop.simps) simp
    have "mem' ! outP ! k = (if i \<le> int k \<and> int k < numSamples
                                 then mem ! inP ! k * dryMix + mem ! outP ! k * mix
                                 else mem ! outP ! k)" if k: "k < length (mem ! outP)" for k
    proof (cases "k = nat i")
      case True
      then show ?thesis using r(5)[of k] k m1 g \<open>i < numSamples\<close> by simp
    next
      case False
      then have "?mem1 ! outP ! k = mem ! outP ! k" using m1 by simp
      moreover have "(i + 1 \<le> int k) = (i \<le> int k)" using False g by linarith
      ultimately show ?thesis using r(5)[of k] k m1 by simp
    qed
    then show ?thesis using step r(2,3,4) m1 by simp
  qed
qed

end
